theory Spec2Isabelle
  imports Main
begin

section \<open>JavaScript strings\<close>

text \<open>
  A JavaScript string is a sequence of UTF-16 code units. A code unit is modelled as a
  natural number (below 65536 in every string the program can hold); regular expressions
  without the \<^verbatim>\<open>u\<close> flag, \<^verbatim>\<open>trim\<close>, \<^verbatim>\<open>split\<close> and indexing all work on code units.
  \<open>js\<close> turns an ASCII literal of the theory into such a string.
\<close>

type_synonym jsstring = "nat list"

definition js :: "string \<Rightarrow> jsstring" where
  "js s = map of_char s"

definition LF :: nat where
  "LF = 10"

text \<open>\<^verbatim>\<open>s.slice(a, b)\<close> for \<open>0 \<le> a\<close>, \<open>0 \<le> b\<close>.\<close>

definition slice :: "jsstring \<Rightarrow> nat \<Rightarrow> nat \<Rightarrow> jsstring" where
  "slice s a b = take (b - a) (drop a s)"

text \<open>
  The characters that ECMAScript calls WhiteSpace and LineTerminator. Together they are
  what \<^verbatim>\<open>\s\<close> matches and what \<^verbatim>\<open>String.prototype.trim\<close> strips.
\<close>

definition isLineTerminator :: "nat \<Rightarrow> bool" where
  "isLineTerminator c \<longleftrightarrow> c = 10 \<or> c = 13 \<or> c = 8232 \<or> c = 8233"

definition isWhiteSpace :: "nat \<Rightarrow> bool" where
  "isWhiteSpace c \<longleftrightarrow>
     c = 9 \<or> c = 10 \<or> c = 11 \<or> c = 12 \<or> c = 13 \<or> c = 32 \<or> c = 160 \<or> c = 5760 \<or>
     (8192 \<le> c \<and> c \<le> 8202) \<or> c = 8232 \<or> c = 8233 \<or> c = 8239 \<or> c = 8287 \<or>
     c = 12288 \<or> c = 65279"

definition trim :: "jsstring \<Rightarrow> jsstring" where
  "trim s = rev (dropWhile isWhiteSpace (rev (dropWhile isWhiteSpace s)))"

text \<open>\<^verbatim>\<open>xs.join(sep)\<close>.\<close>

fun join :: "jsstring \<Rightarrow> jsstring list \<Rightarrow> jsstring" where
  "join sep [] = []"
| "join sep [x] = x"
| "join sep (x # y # ys) = x @ sep @ join sep (y # ys)"

text \<open>\<^verbatim>\<open>String(n)\<close> for a non-negative integer below \<open>10^21\<close>: its decimal digits.\<close>

fun digits :: "nat \<Rightarrow> jsstring" where
  "digits n = (if n < 10 then [48 + n] else digits (n div 10) @ [48 + n mod 10])"

declare digits.simps [simp del]

section \<open>Regular expressions\<close>

text \<open>
  The patterns of the program use single-character atoms, quantifiers on single-character
  atoms, concatenation, alternation, capture groups and the assertions \<^verbatim>\<open>^\<close> and \<^verbatim>\<open>$\<close>.
  The matcher below is a backtracking matcher for this fragment: it returns every way a
  pattern can match at a position, in the order in which ECMAScript tries them, so that
  the head of the list is the match that \<^verbatim>\<open>RegExp.prototype.exec\<close> reports.
\<close>

datatype cclass =
    Lit nat              \<comment> \<open>a literal character\<close>
  | WS                   \<comment> \<open>\<^verbatim>\<open>\s\<close>\<close>
  | Dot                  \<comment> \<open>\<^verbatim>\<open>.\<close>\<close>
  | AnyChar              \<comment> \<open>\<^verbatim>\<open>[\s\S]\<close>\<close>
  | NoneOf "nat list"    \<comment> \<open>\<^verbatim>\<open>[^...]\<close>\<close>

datatype regex =
    Eps
  | Atom cclass
  | Rep cclass nat "nat option" bool  \<comment> \<open>atom, minimum, maximum, greedy\<close>
  | Seq regex regex
  | Alt regex regex
  | Group nat regex                   \<comment> \<open>capture group with its (zero-based) number\<close>
  | Bol                               \<comment> \<open>\<^verbatim>\<open>^\<close>\<close>
  | Eol                               \<comment> \<open>\<^verbatim>\<open>$\<close>\<close>

record flags =
  ignoreCase :: bool
  multiline :: bool

type_synonym captures = "(nat \<times> nat) option list"

definition cat :: "regex list \<Rightarrow> regex" where
  "cat rs = foldr Seq rs Eps"

definition lits :: "string \<Rightarrow> regex" where
  "lits s = cat (map (\<lambda>c. Atom (Lit (of_char c))) s)"

text \<open>
  Canonicalize of ECMAScript for a pattern without the \<^verbatim>\<open>u\<close> flag, restricted to what
  decides a comparison with an ASCII pattern character (all pattern characters of the
  program are ASCII): ASCII lower-case letters map to upper case, and a character outside
  ASCII never canonicalizes to an ASCII one.
\<close>

definition canonicalize :: "nat \<Rightarrow> nat" where
  "canonicalize c = (if 97 \<le> c \<and> c \<le> 122 then c - 32 else c)"

definition char_eq :: "bool \<Rightarrow> nat \<Rightarrow> nat \<Rightarrow> bool" where
  "char_eq ic p c = (if ic then canonicalize c = canonicalize p else c = p)"

fun accepts :: "bool \<Rightarrow> cclass \<Rightarrow> nat \<Rightarrow> bool" where
  "accepts ic (Lit p) c = char_eq ic p c"
| "accepts ic WS c = isWhiteSpace c"
| "accepts ic Dot c = (\<not> isLineTerminator c)"
| "accepts ic AnyChar c = True"
| "accepts ic (NoneOf ps) c = (\<not> (\<exists>p \<in> set ps. char_eq ic p c))"

text \<open>
  The numbers of repetitions a quantified atom can take at position \<open>i\<close>, in the order
  they are tried: longest first when greedy, shortest first when lazy.
\<close>

definition rep_counts :: "bool \<Rightarrow> jsstring \<Rightarrow> cclass \<Rightarrow> nat \<Rightarrow> nat option \<Rightarrow> bool \<Rightarrow> nat \<Rightarrow> nat list" where
  "rep_counts ic s a lo hi greedy i =
     (let avail = length (takeWhile (accepts ic a) (drop i s));
          k = (case hi of None \<Rightarrow> avail | Some h \<Rightarrow> min h avail)
      in if k < lo then [] else if greedy then rev [lo..<Suc k] else [lo..<Suc k])"

fun run :: "flags \<Rightarrow> jsstring \<Rightarrow> regex \<Rightarrow> nat \<Rightarrow> captures \<Rightarrow> (nat \<times> captures) list" where
  "run f s Eps i c = [(i, c)]"
| "run f s (Atom a) i c =
     (if i < length s \<and> accepts (ignoreCase f) a (s ! i) then [(Suc i, c)] else [])"
| "run f s (Rep a lo hi greedy) i c =
     map (\<lambda>n. (i + n, c)) (rep_counts (ignoreCase f) s a lo hi greedy i)"
| "run f s (Seq r1 r2) i c =
     concat (map (\<lambda>(j, c'). run f s r2 j c') (run f s r1 i c))"
| "run f s (Alt r1 r2) i c = run f s r1 i c @ run f s r2 i c"
| "run f s (Group k r) i c =
     map (\<lambda>(j, c'). (j, c'[k := Some (i, j)])) (run f s r i c)"
| "run f s Bol i c =
     (if i = 0 \<or> (multiline f \<and> i \<le> length s \<and> isLineTerminator (s ! (i - 1)))
      then [(i, c)] else [])"
| "run f s Eol i c =
     (if i = length s \<or> (multiline f \<and> i < length s \<and> isLineTerminator (s ! i))
      then [(i, c)] else [])"

text \<open>
  A compiled pattern: its syntax tree, its flags and its number of capture groups.
\<close>

record pattern =
  re :: regex
  fl :: flags
  ngroups :: nat

text \<open>
  One match attempt anchored at position \<open>i\<close>: start, end and captures of the first way
  the pattern matches there.
\<close>

definition exec_at :: "pattern \<Rightarrow> jsstring \<Rightarrow> nat \<Rightarrow> (nat \<times> nat \<times> captures) option" where
  "exec_at p s i =
     (case run (fl p) s (re p) i (replicate (ngroups p) None) of
        [] \<Rightarrow> None
      | (j, c) # _ \<Rightarrow> Some (i, j, c))"

fun first_some :: "('a \<Rightarrow> 'b option) \<Rightarrow> 'a list \<Rightarrow> 'b option" where
  "first_some g [] = None"
| "first_some g (x # xs) = (case g x of Some y \<Rightarrow> Some y | None \<Rightarrow> first_some g xs)"

text \<open>\<^verbatim>\<open>exec\<close> of a non-sticky pattern with \<^verbatim>\<open>lastIndex = i\<close>: the leftmost match at or after \<open>i\<close>.\<close>

definition exec_from :: "pattern \<Rightarrow> jsstring \<Rightarrow> nat \<Rightarrow> (nat \<times> nat \<times> captures) option" where
  "exec_from p s i = first_some (exec_at p s) [i..<Suc (length s)]"

text \<open>
  The text of capture group \<open>k\<close>. Every group of the program's patterns that a callback
  reads stands outside alternation and quantifiers, so it takes part in every match; a
  group that took no part (JavaScript's \<^verbatim>\<open>undefined\<close>) is given the empty text here.
\<close>

definition capture :: "jsstring \<Rightarrow> captures \<Rightarrow> nat \<Rightarrow> jsstring" where
  "capture s c k = (if k < length c then (case c ! k of Some (a, b) \<Rightarrow> slice s a b | None \<Rightarrow> []) else [])"


subsection \<open>Matches never move backwards\<close>

lemma rep_counts_ge: "n \<in> set (rep_counts ic s a lo hi g i) \<Longrightarrow> lo \<le> n"
  by (auto simp: rep_counts_def Let_def split: if_splits option.splits)

lemma run_mono: "(j, c') \<in> set (run f s r i c) \<Longrightarrow> i \<le> j"
proof (induction r arbitrary: i j c c')
  case (Seq r1 r2)
  then show ?case by (fastforce dest: order_trans)
qed (auto split: if_splits)

lemma exec_at_bounds: "exec_at p s i = Some (b, e, c) \<Longrightarrow> b = i \<and> i \<le> e"
proof -
  assume a: "exec_at p s i = Some (b, e, c)"
  then obtain rest where r: "run (fl p) s (re p) i (replicate (ngroups p) None) = (e, c) # rest" and "b = i"
    by (auto simp: exec_at_def split: list.splits)
  then have "(e, c) \<in> set (run (fl p) s (re p) i (replicate (ngroups p) None))" by simp
  then have "i \<le> e" by (rule run_mono)
  with \<open>b = i\<close> show ?thesis by simp
qed

lemma first_some_D: "first_some g xs = Some y \<Longrightarrow> \<exists>x \<in> set xs. g x = Some y"
  by (induction xs) (auto split: option.splits)

lemma exec_from_bounds: "exec_from p s i = Some (b, e, c) \<Longrightarrow> i \<le> b \<and> b \<le> e \<and> b \<le> length s"
  by (auto simp: exec_from_def dest!: first_some_D exec_at_bounds)

text \<open>
  The matches of a global pattern from \<^verbatim>\<open>lastIndex = i\<close> on: after an empty match the index
  advances by one.
\<close>

function match_all :: "pattern \<Rightarrow> jsstring \<Rightarrow> nat \<Rightarrow> (nat \<times> nat \<times> captures) list" where
  "match_all p s i =
     (if length s < i then []
      else (case exec_from p s i of
              None \<Rightarrow> []
            | Some (b, e, c) \<Rightarrow> (b, e, c) # match_all p s (if e = b then Suc e else e)))"
  by pat_completeness auto
termination
  by (relation "measure (\<lambda>(p, s, i). Suc (length s) - i)")
     (auto dest!: exec_from_bounds)

declare match_all.simps [simp del]

text \<open>
  \<^verbatim>\<open>s.split(pattern)\<close> for a pattern without capture groups
  (\<^verbatim>\<open>RegExp.prototype[Symbol.split]\<close>): \<open>p\<close> is the start of the current piece, \<open>q\<close> the position
  where a match is attempted.
\<close>

function split_loop :: "pattern \<Rightarrow> jsstring \<Rightarrow> nat \<Rightarrow> nat \<Rightarrow> jsstring list" where
  "split_loop pt s p q =
     (if q < length s then
        (case exec_at pt s q of
           None \<Rightarrow> split_loop pt s p (Suc q)
         | Some (b, j, c) \<Rightarrow>
             (let e = min j (length s)
              in if e = p then split_loop pt s p (Suc q)
                 else slice s p q # split_loop pt s e e))
      else [slice s p (length s)])"
  by pat_completeness auto
termination
  by (relation "measure (\<lambda>(pt, s, p, q). 2 * (length s - q) + (if p = q then 0 else 1))")
     (auto dest!: exec_at_bounds simp: min_def split: if_splits)

declare split_loop.simps [simp del]


text \<open>
  \<^verbatim>\<open>s.replace(pattern, callback)\<close> for a global pattern: all matches are collected first
  (\<open>match_all\<close>, the loop of \<^verbatim>\<open>RegExp.prototype[Symbol.replace]\<close>), then the callback runs on
  each match in order. The callback receives the matched text and the capture texts; the state
  \<open>'st\<close> carries what the callback mutates.
\<close>

fun replace_build ::
  "jsstring \<Rightarrow> (jsstring \<Rightarrow> (nat \<Rightarrow> jsstring) \<Rightarrow> 'st \<Rightarrow> jsstring \<times> 'st) \<Rightarrow>
   (nat \<times> nat \<times> captures) list \<Rightarrow> nat \<Rightarrow> 'st \<Rightarrow> jsstring \<times> 'st" where
  "replace_build s cb [] pos st = (drop pos s, st)"
| "replace_build s cb ((b, e, c) # ms) pos st =
     (let (replacement, st') = cb (slice s b e) (capture s c) st
      in if pos \<le> b then
           (let (rest, st'') = replace_build s cb ms e st'
            in (slice s pos b @ replacement @ rest, st''))
         else replace_build s cb ms pos st')"

definition replace_all ::
  "pattern \<Rightarrow> jsstring \<Rightarrow> (jsstring \<Rightarrow> (nat \<Rightarrow> jsstring) \<Rightarrow> 'st \<Rightarrow> jsstring \<times> 'st) \<Rightarrow> 'st \<Rightarrow> jsstring \<times> 'st" where
  "replace_all p s cb st = replace_build s cb (match_all p s 0) 0 st"

definition split_re :: "pattern \<Rightarrow> jsstring \<Rightarrow> jsstring list" where
  "split_re pt s =
     (if s = [] then (case exec_at pt s 0 of None \<Rightarrow> [s] | Some _ \<Rightarrow> [])
      else split_loop pt s 0 0)"

section \<open>The patterns of the slide compiler\<close>

definition gm :: flags where "gm = \<lparr>ignoreCase = False, multiline = True\<rparr>"
definition gi :: flags where "gi = \<lparr>ignoreCase = True, multiline = False\<rparr>"
definition gim :: flags where "gim = \<lparr>ignoreCase = True, multiline = True\<rparr>"

definition SEPARATOR :: pattern where
  "SEPARATOR = \<lparr>re = cat [Bol, Rep WS 0 None True, lits ''---'', Rep WS 0 None True, Eol],
                 fl = gm, ngroups = 0\<rparr>"

definition NOTES_BLOCK :: pattern where
  "NOTES_BLOCK = \<lparr>re = cat [lits '':::'', Rep (Lit 32) 0 (Some 1) True, lits ''notes'',
                              Rep WS 0 None True, Group 0 (Rep AnyChar 0 None False), lits '':::''],
                   fl = gi, ngroups = 1\<rparr>"

definition NOTE_LINE :: pattern where
  "NOTE_LINE = \<lparr>re = cat [Bol, lits ''Note:'', Rep WS 0 None True, Group 0 (Rep Dot 1 None True), Eol],
                 fl = gim, ngroups = 1\<rparr>"

definition HEADING :: pattern where
  "HEADING = \<lparr>re = cat [Bol, Rep WS 0 (Some 3) True, Rep (Lit 35) 1 (Some 2) True,
                          Rep WS 1 None True, Group 0 (Rep Dot 1 None True), Eol],
               fl = gm, ngroups = 1\<rparr>"

definition extractTitle :: "jsstring \<Rightarrow> nat \<Rightarrow> jsstring" where
  "extractTitle markdown fallbackIndex =
     (case exec_from HEADING markdown 0 of
        Some (b, e, c) \<Rightarrow>
          if capture markdown c 0 \<noteq> [] then trim (capture markdown c 0)
          else js ''Slide '' @ digits (fallbackIndex + 1)
      | None \<Rightarrow> js ''Slide '' @ digits (fallbackIndex + 1))"

definition note_callback :: "jsstring \<Rightarrow> jsstring list \<Rightarrow> jsstring \<times> jsstring list" where
  "note_callback notes noteCollection =
     (let trimmedNotes = trim notes
      in if trimmedNotes \<noteq> [] then ([], noteCollection @ [trimmedNotes]) else ([], noteCollection))"

section \<open>Percent-encoding\<close>

text \<open>
  \<^verbatim>\<open>encodeURIComponent\<close> and \<^verbatim>\<open>decodeURIComponent\<close> of ECMAScript (the abstract operations
  Encode and Decode). Both throw \<^verbatim>\<open>URIError\<close>: the first on an unpaired surrogate, the second
  on a malformed escape or on octets that are not well-formed UTF-8.
\<close>

datatype js_error =
    URIError
  | TypeError
  | Thrown jsstring   \<comment> \<open>an exception of an engine, with its message\<close>
  | Untyped           \<comment> \<open>not an exception: the state stops being of its declared type\<close>

definition uriUnreserved :: "nat \<Rightarrow> bool" where
  "uriUnreserved c \<longleftrightarrow>
     (65 \<le> c \<and> c \<le> 90) \<or> (97 \<le> c \<and> c \<le> 122) \<or> (48 \<le> c \<and> c \<le> 57) \<or>
     c \<in> set (js ''-_.!~*'' @ [39] @ js ''()'')"

definition isLeadSurrogate :: "nat \<Rightarrow> bool" where
  "isLeadSurrogate c \<longleftrightarrow> 55296 \<le> c \<and> c \<le> 56319"

definition isTrailSurrogate :: "nat \<Rightarrow> bool" where
  "isTrailSurrogate c \<longleftrightarrow> 56320 \<le> c \<and> c \<le> 57343"

definition utf8 :: "nat \<Rightarrow> nat list" where
  "utf8 cp =
     (if cp < 128 then [cp]
      else if cp < 2048 then [192 + cp div 64, 128 + cp mod 64]
      else if cp < 65536 then [224 + cp div 4096, 128 + (cp div 64) mod 64, 128 + cp mod 64]
      else [240 + cp div 262144, 128 + (cp div 4096) mod 64, 128 + (cp div 64) mod 64, 128 + cp mod 64])"

definition hexDigit :: "nat \<Rightarrow> nat" where
  "hexDigit d = (if d < 10 then 48 + d else 55 + d)"

definition pct :: "nat \<Rightarrow> jsstring" where
  "pct b = [37, hexDigit (b div 16), hexDigit (b mod 16)]"

fun encodeURIComponent :: "jsstring \<Rightarrow> js_error + jsstring" where
  "encodeURIComponent [] = Inr []"
| "encodeURIComponent (c # cs) =
     (if uriUnreserved c then map_sum id ((#) c) (encodeURIComponent cs)
      else if isLeadSurrogate c then
        (case cs of
           [] \<Rightarrow> Inl URIError
         | d # ds \<Rightarrow>
             if isTrailSurrogate d
             then map_sum id ((@) (concat (map pct (utf8 ((c - 55296) * 1024 + (d - 56320) + 65536)))))
                    (encodeURIComponent ds)
             else Inl URIError)
      else if isTrailSurrogate c then Inl URIError
      else map_sum id ((@) (concat (map pct (utf8 c)))) (encodeURIComponent cs))"

definition unhex :: "nat \<Rightarrow> nat option" where
  "unhex c =
     (if 48 \<le> c \<and> c \<le> 57 then Some (c - 48)
      else if 65 \<le> c \<and> c \<le> 70 then Some (c - 55)
      else if 97 \<le> c \<and> c \<le> 102 then Some (c - 87)
      else None)"

fun pct_byte :: "jsstring \<Rightarrow> (nat \<times> jsstring) option" where
  "pct_byte (p # h # l # rest) =
     (if p = 37 then
        (case unhex h of
           None \<Rightarrow> None
         | Some a \<Rightarrow> (case unhex l of None \<Rightarrow> None | Some b \<Rightarrow> Some (16 * a + b, rest)))
      else None)"
| "pct_byte _ = None"

fun pct_bytes :: "nat \<Rightarrow> jsstring \<Rightarrow> (nat list \<times> jsstring) option" where
  "pct_bytes 0 s = Some ([], s)"
| "pct_bytes (Suc n) s =
     (case pct_byte s of
        None \<Rightarrow> None
      | Some (b, r) \<Rightarrow>
          (case pct_bytes n r of None \<Rightarrow> None | Some (bs, r') \<Rightarrow> Some (b # bs, r')))"

definition leadingOnes :: "nat \<Rightarrow> nat" where
  "leadingOnes b =
     (if b < 128 then 0 else if b < 192 then 1 else if b < 224 then 2
      else if b < 240 then 3 else if b < 248 then 4 else 5)"

definition isContinuation :: "nat \<Rightarrow> bool" where
  "isContinuation b \<longleftrightarrow> 128 \<le> b \<and> b < 192"

fun utf8_decode :: "nat list \<Rightarrow> nat option" where
  "utf8_decode [b0, b1] =
     (let cp = (b0 - 192) * 64 + (b1 - 128)
      in if isContinuation b1 \<and> 128 \<le> cp then Some cp else None)"
| "utf8_decode [b0, b1, b2] =
     (let cp = (b0 - 224) * 4096 + (b1 - 128) * 64 + (b2 - 128)
      in if isContinuation b1 \<and> isContinuation b2 \<and> 2048 \<le> cp \<and> \<not> (55296 \<le> cp \<and> cp \<le> 57343)
         then Some cp else None)"
| "utf8_decode [b0, b1, b2, b3] =
     (let cp = (b0 - 240) * 262144 + (b1 - 128) * 4096 + (b2 - 128) * 64 + (b3 - 128)
      in if isContinuation b1 \<and> isContinuation b2 \<and> isContinuation b3 \<and> 65536 \<le> cp \<and> cp \<le> 1114111
         then Some cp else None)"
| "utf8_decode _ = None"

definition utf16 :: "nat \<Rightarrow> jsstring" where
  "utf16 cp = (if cp < 65536 then [cp] else [55296 + (cp - 65536) div 1024, 56320 + (cp - 65536) mod 1024])"

lemma pct_byte_length: "pct_byte s = Some (b, r) \<Longrightarrow> length r < length s"
  by (induction s rule: pct_byte.induct) (auto split: if_splits option.splits)

lemma pct_bytes_length: "pct_bytes n s = Some (bs, r) \<Longrightarrow> length r \<le> length s"
proof (induction n arbitrary: s bs r)
  case (Suc n)
  then show ?case
    by (fastforce split: option.splits dest: pct_byte_length)
qed simp

function decodeURIComponent :: "jsstring \<Rightarrow> js_error + jsstring" where
  "decodeURIComponent [] = Inr []"
| "decodeURIComponent (c # cs) =
     (if c \<noteq> 37 then map_sum id ((#) c) (decodeURIComponent cs)
      else (case pct_byte (c # cs) of
              None \<Rightarrow> Inl URIError
            | Some (b, r) \<Rightarrow>
                if leadingOnes b = 0 then map_sum id ((#) b) (decodeURIComponent r)
                else if leadingOnes b = 1 \<or> 4 < leadingOnes b then Inl URIError
                else (case pct_bytes (leadingOnes b - 1) r of
                        None \<Rightarrow> Inl URIError
                      | Some (bs, r') \<Rightarrow>
                          (case utf8_decode (b # bs) of
                             None \<Rightarrow> Inl URIError
                           | Some cp \<Rightarrow> map_sum id ((@) (utf16 cp)) (decodeURIComponent r')))))"
  by pat_completeness auto
termination
  by (relation "measure length") (auto dest!: pct_byte_length pct_bytes_length)

definition decodeDatasetValue :: "jsstring option \<Rightarrow> jsstring" where
  "decodeDatasetValue v =
     (case v of
        None \<Rightarrow> []
      | Some s \<Rightarrow>
          if s = [] then []
          else (case decodeURIComponent s of Inl _ \<Rightarrow> s | Inr d \<Rightarrow> d))"

text \<open>\<^verbatim>\<open>s.replaceAll(c, r)\<close> for a search string of one character.\<close>

definition replaceAll :: "nat \<Rightarrow> jsstring \<Rightarrow> jsstring \<Rightarrow> jsstring" where
  "replaceAll c r s = concat (map (\<lambda>x. if x = c then r else [x]) s)"

definition escapeHtml :: "jsstring \<Rightarrow> jsstring" where
  \<open>escapeHtml content =
     replaceAll 39 (js ''&#39;'')
       (replaceAll 34 (js ''&quot;'')
         (replaceAll 62 (js ''&gt;'')
           (replaceAll 60 (js ''&lt;'')
             (replaceAll 38 (js ''&amp;'') content))))\<close>

section \<open>The HTML renderer\<close>

text \<open>
  The code token that \<^verbatim>\<open>marked\<close> hands to \<^verbatim>\<open>renderer.code\<close>: the fence content and the
  language tag (\<^verbatim>\<open>undefined\<close> when the fence has none).
\<close>

record code_token =
  tok_text :: jsstring
  tok_lang :: "jsstring option"

text \<open>
  \<^verbatim>\<open>toLowerCase\<close> is the runtime's Unicode case mapping, a parameter of the model.
\<close>

definition renderer_code :: "(jsstring \<Rightarrow> jsstring) \<Rightarrow> code_token \<Rightarrow> js_error + jsstring" where
  \<open>renderer_code toLowerCase tok =
     (case encodeURIComponent (tok_text tok) of
        Inl e \<Rightarrow> Inl e
      | Inr encodedCode \<Rightarrow>
          (let cleanLang = toLowerCase (trim (case tok_lang tok of None \<Rightarrow> [] | Some l \<Rightarrow> l))
           in if cleanLang = js ''mermaid''
              then Inr (js ''<div class="md-mermaid" data-mermaid="'' @ encodedCode @ js ''"></div>'')
              else Inr (js ''<pre class="md-code" data-lang="'' @ escapeHtml cleanLang @
                        js ''" data-code="'' @ encodedCode @ js ''"></pre>'')))\<close>

section \<open>The slide compiler\<close>

text \<open>
  What the model takes from outside the repository: the runtime's \<^verbatim>\<open>toLowerCase\<close>, and
  \<^verbatim>\<open>marked.parse\<close>, which is handed the code renderer and the Markdown text and returns the
  HTML or throws (it rethrows what the renderer throws).
\<close>

record runtime =
  toLowerCase :: "jsstring \<Rightarrow> jsstring"
  marked_parse :: "(code_token \<Rightarrow> js_error + jsstring) \<Rightarrow> jsstring \<Rightarrow> js_error + jsstring"

definition markdownToHtml :: "runtime \<Rightarrow> jsstring \<Rightarrow> js_error + jsstring" where
  "markdownToHtml rt content = marked_parse rt (renderer_code (toLowerCase rt)) content"

record slide =
  slide_id :: nat
  slide_title :: jsstring
  slide_markdown :: jsstring
  slide_html :: jsstring
  slide_notes :: jsstring

definition EMPTY_SLIDE :: jsstring where
  "EMPTY_SLIDE = js ''_Empty slide_''"

definition NO_NOTES :: jsstring where
  "NO_NOTES = js ''No speaker notes for this slide.''"

text \<open>The body of the callback that \<^verbatim>\<open>parseSlides\<close> maps over the raw slides.\<close>

definition parseSlide :: "runtime \<Rightarrow> jsstring \<Rightarrow> nat \<Rightarrow> js_error + slide" where
  "parseSlide rt rawSlide index =
     (let (content, noteCollection) =
            replace_all NOTES_BLOCK rawSlide (\<lambda>_ g. note_callback (g 0)) [];
          (content, noteCollection) =
            replace_all NOTE_LINE content (\<lambda>_ g. note_callback (g 0)) noteCollection;
          normalizedContent = (if trim content \<noteq> [] then trim content else EMPTY_SLIDE);
          joined = trim (join [LF, LF] noteCollection)
      in case markdownToHtml rt normalizedContent of
           Inl e \<Rightarrow> Inl e
         | Inr h \<Rightarrow>
             Inr \<lparr>slide_id = index,
                  slide_title = extractTitle normalizedContent index,
                  slide_markdown = normalizedContent,
                  slide_html = h,
                  slide_notes = (if joined \<noteq> [] then joined else NO_NOTES)\<rparr>)"

text \<open>A list of results in order; the first exception aborts the whole map.\<close>

fun sequence :: "('e + 'a) list \<Rightarrow> 'e + 'a list" where
  "sequence [] = Inr []"
| "sequence (x # xs) =
     (case x of
        Inl e \<Rightarrow> Inl e
      | Inr v \<Rightarrow> (case sequence xs of Inl e \<Rightarrow> Inl e | Inr vs \<Rightarrow> Inr (v # vs)))"

definition parseSlides :: "runtime \<Rightarrow> jsstring \<Rightarrow> js_error + slide list" where
  "parseSlides rt markdown =
     (let rawSlides = split_re SEPARATOR markdown
      in sequence (map (\<lambda>(rawSlide, index). parseSlide rt rawSlide index)
                       (zip rawSlides [0..<length rawSlides])))"

section \<open>The deep-link codec\<close>

subsection \<open>URLSearchParams\<close>

text \<open>
  \<^verbatim>\<open>URLSearchParams\<close> is a list of name-value pairs. Its constructor runs the
  \<^verbatim>\<open>application/x-www-form-urlencoded\<close> parser on the UTF-8 bytes of its argument, and
  \<^verbatim>\<open>toString\<close> runs the serializer (URL Standard). Converting a string to bytes replaces an
  unpaired surrogate by U+FFFD; decoding bytes replaces every ill-formed sequence by U+FFFD
  (the UTF-8 decoder of the Encoding Standard, a state machine over the code point built so
  far, the continuation bytes still needed and the bounds of the next byte).
\<close>

fun utf8_bytes :: "jsstring \<Rightarrow> nat list" where
  "utf8_bytes [] = []"
| "utf8_bytes [c] = (if isLeadSurrogate c \<or> isTrailSurrogate c then utf8 65533 else utf8 c)"
| "utf8_bytes (c # d # ds) =
     (if isLeadSurrogate c then
        (if isTrailSurrogate d
         then utf8 ((c - 55296) * 1024 + (d - 56320) + 65536) @ utf8_bytes ds
         else utf8 65533 @ utf8_bytes (d # ds))
      else if isTrailSurrogate c then utf8 65533 @ utf8_bytes (d # ds)
      else utf8 c @ utf8_bytes (d # ds))"

fun utf8_decode_lossy :: "nat \<Rightarrow> nat \<Rightarrow> nat \<Rightarrow> nat \<Rightarrow> nat list \<Rightarrow> jsstring" where
  "utf8_decode_lossy cp needed lo hi [] = (if needed \<noteq> 0 then [65533] else [])"
| "utf8_decode_lossy cp 0 lo hi (b # bs) =
     (if b < 128 then b # utf8_decode_lossy 0 0 128 191 bs
      else if 194 \<le> b \<and> b \<le> 223 then utf8_decode_lossy (b - 192) 1 128 191 bs
      else if 224 \<le> b \<and> b \<le> 239 then
        utf8_decode_lossy (b - 224) 2 (if b = 224 then 160 else 128) (if b = 237 then 159 else 191) bs
      else if 240 \<le> b \<and> b \<le> 244 then
        utf8_decode_lossy (b - 240) 3 (if b = 240 then 144 else 128) (if b = 244 then 143 else 191) bs
      else 65533 # utf8_decode_lossy 0 0 128 191 bs)"
| "utf8_decode_lossy cp (Suc n) lo hi (b # bs) =
     (if b < lo \<or> hi < b then 65533 # utf8_decode_lossy 0 0 128 191 (b # bs)
      else if n = 0 then utf16 (cp * 64 + (b - 128)) @ utf8_decode_lossy 0 0 128 191 bs
      else utf8_decode_lossy (cp * 64 + (b - 128)) n 128 191 bs)"

definition utf8_to_string :: "nat list \<Rightarrow> jsstring" where
  "utf8_to_string bs = utf8_decode_lossy 0 0 128 191 bs"

text \<open>Percent-decoding of bytes: an escape that is not two hex digits stays as it is.\<close>

fun percent_decode :: "nat list \<Rightarrow> nat list" where
  "percent_decode (p # h # l # rest) =
     (if p = 37 then
        (case unhex h of
           None \<Rightarrow> p # percent_decode (h # l # rest)
         | Some a \<Rightarrow>
             (case unhex l of
                None \<Rightarrow> p # percent_decode (h # l # rest)
              | Some b \<Rightarrow> (16 * a + b) # percent_decode rest))
      else p # percent_decode (h # l # rest))"
| "percent_decode bs = bs"

fun split_on :: "nat \<Rightarrow> nat list \<Rightarrow> nat list list" where
  "split_on sep [] = [[]]"
| "split_on sep (b # bs) =
     (if b = sep then [] # split_on sep bs
      else (case split_on sep bs of
              [] \<Rightarrow> [[b]]
            | piece # pieces \<Rightarrow> (b # piece) # pieces))"

definition urlencoded_field :: "nat list \<Rightarrow> jsstring" where
  "urlencoded_field bs = utf8_to_string (percent_decode (map (\<lambda>b. if b = 43 then 32 else b) bs))"

definition urlencoded_pair :: "nat list \<Rightarrow> jsstring \<times> jsstring" where
  "urlencoded_pair bs =
     (urlencoded_field (takeWhile (\<lambda>b. b \<noteq> 61) bs),
      urlencoded_field (drop 1 (dropWhile (\<lambda>b. b \<noteq> 61) bs)))"

definition urlencoded_parse :: "nat list \<Rightarrow> (jsstring \<times> jsstring) list" where
  "urlencoded_parse bs = map urlencoded_pair (filter (\<lambda>piece. piece \<noteq> []) (split_on 38 bs))"

definition URLSearchParams :: "jsstring \<Rightarrow> (jsstring \<times> jsstring) list" where
  "URLSearchParams init =
     urlencoded_parse (utf8_bytes (case init of c # cs \<Rightarrow> if c = 63 then cs else init | [] \<Rightarrow> init))"

definition urlencoded_byte :: "nat \<Rightarrow> nat list" where
  "urlencoded_byte b =
     (if b = 32 then [43]
      else if (48 \<le> b \<and> b \<le> 57) \<or> (65 \<le> b \<and> b \<le> 90) \<or> (97 \<le> b \<and> b \<le> 122) \<or>
              b = 42 \<or> b = 45 \<or> b = 46 \<or> b = 95 then [b]
      else pct b)"

definition urlencode :: "jsstring \<Rightarrow> jsstring" where
  "urlencode s = concat (map urlencoded_byte (utf8_bytes s))"

definition params_toString :: "(jsstring \<times> jsstring) list \<Rightarrow> jsstring" where
  "params_toString params = join [38] (map (\<lambda>(n, v). urlencode n @ [61] @ urlencode v) params)"

definition params_get :: "(jsstring \<times> jsstring) list \<Rightarrow> jsstring \<Rightarrow> jsstring option" where
  "params_get params name = map_of params name"

fun params_set :: "(jsstring \<times> jsstring) list \<Rightarrow> jsstring \<Rightarrow> jsstring \<Rightarrow> (jsstring \<times> jsstring) list" where
  "params_set [] name val = [(name, val)]"
| "params_set ((n, v) # ps) name val =
     (if n = name then (name, val) # filter (\<lambda>(n', _). n' \<noteq> name) ps
      else (n, v) # params_set ps name val)"

definition params_delete :: "(jsstring \<times> jsstring) list \<Rightarrow> jsstring \<Rightarrow> (jsstring \<times> jsstring) list" where
  "params_delete params name = filter (\<lambda>(n', _). n' \<noteq> name) params"

subsection \<open>Numbers\<close>

text \<open>
  Slide indices are JavaScript numbers that hold integers. They are modelled as \<open>int\<close>,
  which is exact as long as the values stay below \<open>2^53\<close> in magnitude.
  \<^verbatim>\<open>Number.parseInt(s, 10)\<close> skips leading white space, reads a sign and the longest run of
  decimal digits; \<open>None\<close> is \<^verbatim>\<open>NaN\<close>.
\<close>

definition isDigit :: "nat \<Rightarrow> bool" where
  "isDigit c \<longleftrightarrow> 48 \<le> c \<and> c \<le> 57"

definition digits_value :: "jsstring \<Rightarrow> nat" where
  "digits_value ds = foldl (\<lambda>a d. 10 * a + (d - 48)) 0 ds"

definition parseInt :: "jsstring \<Rightarrow> int option" where
  "parseInt s =
     (let t = dropWhile isWhiteSpace s;
          negative = (case t of c # _ \<Rightarrow> c = 45 | [] \<Rightarrow> False);
          t' = (case t of c # r \<Rightarrow> if c = 45 \<or> c = 43 then r else t | [] \<Rightarrow> t);
          ds = takeWhile isDigit t'
      in if ds = [] then None
         else Some (if negative then - int (digits_value ds) else int (digits_value ds)))"

text \<open>\<^verbatim>\<open>String(n)\<close> for an integer.\<close>

definition String :: "int \<Rightarrow> jsstring" where
  "String n = (if n < 0 then 45 # digits (nat (- n)) else digits (nat n))"

subsection \<open>Themes\<close>

definition THEME_IDS :: "jsstring list" where
  "THEME_IDS = [js ''minimal'', js ''corporate'', js ''hacker'', js ''academic'', js ''vibrant'']"

definition DEFAULT_THEME_ID :: jsstring where
  "DEFAULT_THEME_ID = js ''corporate''"

text \<open>
  \<^verbatim>\<open>key in THEME_CONFIG\<close> is true for the five own keys of the table and, since \<^verbatim>\<open>in\<close>
  follows the prototype chain, for the property names the object literal inherits from
  \<^verbatim>\<open>Object.prototype\<close>.
\<close>

definition OBJECT_PROTOTYPE_KEYS :: "jsstring list" where
  "OBJECT_PROTOTYPE_KEYS =
     [js ''constructor'', js ''__defineGetter__'', js ''__defineSetter__'', js ''hasOwnProperty'',
      js ''__lookupGetter__'', js ''__lookupSetter__'', js ''isPrototypeOf'',
      js ''propertyIsEnumerable'', js ''toString'', js ''valueOf'', js ''__proto__'',
      js ''toLocaleString'']"

definition in_THEME_CONFIG :: "jsstring \<Rightarrow> bool" where
  "in_THEME_CONFIG key \<longleftrightarrow> key \<in> set THEME_IDS \<or> key \<in> set OBJECT_PROTOTYPE_KEYS"

subsection \<open>Reading and writing the fragment\<close>

record HashState =
  slideIndex :: int
  hashThemeId :: jsstring
  presenter :: bool

text \<open>\<^verbatim>\<open>hash.replace(/^#/, '')\<close>.\<close>

definition strip_hash :: "jsstring \<Rightarrow> jsstring" where
  "strip_hash h = (case h of c # cs \<Rightarrow> if c = 35 then cs else h | [] \<Rightarrow> h)"

text \<open>\<open>readHashState\<close> takes \<^verbatim>\<open>window.location.hash\<close> as its argument.\<close>

definition readHashState :: "jsstring \<Rightarrow> HashState" where
  "readHashState location_hash =
     (let params = URLSearchParams (strip_hash location_hash);
          requestedTheme = params_get params (js ''theme'');
          requestedSlide =
            parseInt (case params_get params (js ''slide'') of None \<Rightarrow> js ''1'' | Some v \<Rightarrow> v);
          themeId =
            (case requestedTheme of
               None \<Rightarrow> DEFAULT_THEME_ID
             | Some t \<Rightarrow> if t \<noteq> [] \<and> in_THEME_CONFIG t then t else DEFAULT_THEME_ID)
      in \<lparr>slideIndex = (case requestedSlide of None \<Rightarrow> 0 | Some n \<Rightarrow> max 0 (n - 1)),
          hashThemeId = themeId,
          presenter = (params_get params (js ''presenter'') = Some (js ''1''))\<rparr>)"

text \<open>
  The hash-writing effect: from the current \<^verbatim>\<open>window.location.hash\<close> and the state it
  computes the fragment (with its \<^verbatim>\<open>#\<close>, or empty) that it passes to
  \<^verbatim>\<open>history.replaceState\<close>.
\<close>

definition writeHash :: "jsstring \<Rightarrow> int \<Rightarrow> jsstring \<Rightarrow> bool \<Rightarrow> jsstring" where
  "writeHash location_hash currentSlide themeId isPresenterWindow =
     (let params = URLSearchParams (strip_hash location_hash);
          params = params_set params (js ''slide'') (String (currentSlide + 1));
          params = params_set params (js ''theme'') themeId;
          params = (if isPresenterWindow then params_set params (js ''presenter'') (js ''1'')
                    else params_delete params (js ''presenter''));
          hash = params_toString params
      in if hash \<noteq> [] then 35 # hash else [])"

section \<open>The application state\<close>

definition clamp :: "int \<Rightarrow> int \<Rightarrow> int \<Rightarrow> int" where
  "clamp val lo hi = (if val < lo then lo else if val > hi then hi else val)"

datatype direction = forward | backward

text \<open>
  The state of \<^verbatim>\<open>App\<close> that the claims are about: the values of \<^verbatim>\<open>useState\<close> and the
  memoized \<^verbatim>\<open>slides\<close> of the last render.
\<close>

record app =
  markdown :: jsstring
  slides :: "slide list"
  currentSlide :: int
  themeId :: jsstring
  slideTransitionDirection :: direction

definition maxSlideIndex :: "app \<Rightarrow> int" where
  "maxSlideIndex st = max 0 (int (length (slides st)) - 1)"

definition goToSlide :: "int \<Rightarrow> app \<Rightarrow> app" where
  "goToSlide index st =
     (let previous = currentSlide st;
          next = clamp index 0 (maxSlideIndex st)
      in st\<lparr>currentSlide := next,
            slideTransitionDirection :=
              (if next > previous then forward
               else if next < previous then backward
               else slideTransitionDirection st)\<rparr>)"







subsection \<open>Messages of the broadcast channel\<close>

text \<open>
  What arrives in \<^verbatim>\<open>event.data\<close> is a structured clone of whatever the sender posted. The
  model has the values of JSON, with integers for numbers.
\<close>

datatype jsval =
    JUndefined
  | JNull
  | JBool bool
  | JNum int
  | JString jsstring
  | JObject "(jsstring \<times> jsval) list"


text \<open>\<^verbatim>\<open>v.key\<close> for a value that is not \<^verbatim>\<open>null\<close> or \<^verbatim>\<open>undefined\<close> and a key that no prototype has.\<close>

fun get_prop :: "jsval \<Rightarrow> jsstring \<Rightarrow> jsval" where
  "get_prop (JObject kvs) key = (case map_of kvs key of None \<Rightarrow> JUndefined | Some v \<Rightarrow> v)"
| "get_prop _ key = JUndefined"



text \<open>
  \<^verbatim>\<open>safeParseSharedState\<close>, the reader of the durable store, on the value that
  \<^verbatim>\<open>JSON.parse\<close> returned (\<open>None\<close>: the text was missing, empty or not JSON).
\<close>

record SharedState =
  sharedMarkdown :: jsstring
  sharedSlide :: int
  sharedThemeId :: jsstring

definition safeParseSharedState :: "jsval option \<Rightarrow> SharedState option" where
  "safeParseSharedState parsed =
     (case parsed of
        None \<Rightarrow> None
      | Some v \<Rightarrow>
          (case (get_prop v (js ''markdown''), get_prop v (js ''currentSlide''), get_prop v (js ''themeId'')) of
             (JString m, JNum n, JString t) \<Rightarrow>
               if in_THEME_CONFIG t
               then Some \<lparr>sharedMarkdown = m, sharedSlide = n, sharedThemeId = t\<rparr>
               else None
           | _ \<Rightarrow> None))"


subsection \<open>Events\<close>




section \<open>The current slide stays in range\<close>


lemmas pattern_eval = SEPARATOR_def NOTES_BLOCK_def NOTE_LINE_def HEADING_def exec_at_def
  exec_from_def cat_def lits_def rep_counts_def gm_def gi_def gim_def isWhiteSpace_def
  isLineTerminator_def char_eq_def canonicalize_def slice_def LF_def Let_def capture_def js_def







lemma clamp_bounds: "lo \<le> hi \<Longrightarrow> lo \<le> clamp v lo hi \<and> clamp v lo hi \<le> hi"
  by (simp add: clamp_def)

lemma maxSlideIndex_nonneg: "0 \<le> maxSlideIndex st"
  by (simp add: maxSlideIndex_def)


lemma goToSlide_fields [simp]:
  "markdown (goToSlide i st) = markdown st" "slides (goToSlide i st) = slides st"
  "themeId (goToSlide i st) = themeId st"
  by (simp_all add: goToSlide_def Let_def)













section \<open>Compiling a concrete deck\<close>

text \<open>
  The two note passes of \<open>parseSlide\<close> as one function: the text that remains and the notes
  collected, block notes first.
\<close>

definition collect_notes :: "jsstring \<Rightarrow> jsstring \<times> jsstring list" where
  "collect_notes rawSlide =
     (let (content, noteCollection) =
            replace_all NOTES_BLOCK rawSlide (\<lambda>_ g. note_callback (g 0)) []
      in replace_all NOTE_LINE content (\<lambda>_ g. note_callback (g 0)) noteCollection)"

lemma parseSlide_collect:
  "parseSlide rt rawSlide index =
     (let normalizedContent =
            (if trim (fst (collect_notes rawSlide)) \<noteq> [] then trim (fst (collect_notes rawSlide)) else EMPTY_SLIDE);
          joined = trim (join [LF, LF] (snd (collect_notes rawSlide)))
      in case markdownToHtml rt normalizedContent of
           Inl e \<Rightarrow> Inl e
         | Inr h \<Rightarrow>
             Inr \<lparr>slide_id = index,
                  slide_title = extractTitle normalizedContent index,
                  slide_markdown = normalizedContent,
                  slide_html = h,
                  slide_notes = (if joined \<noteq> [] then joined else NO_NOTES)\<rparr>)"
  unfolding parseSlide_def collect_notes_def Let_def case_prod_beta by (rule refl)

lemmas run_eval = pattern_eval match_all.simps split_loop.simps replace_all_def split_re_def
  note_callback_def trim_def

definition deck_ABC :: jsstring where
  "deck_ABC = js ''# A'' @ [LF] @ js ''---'' @ [LF] @ js ''# B'' @ [LF] @ js ''---'' @ [LF] @ js ''# C''"

lemma split_deck_ABC:
  "split_re SEPARATOR deck_ABC = [js ''# A'' @ [LF], LF # js ''# B'' @ [LF], LF # js ''# C'']"
  by (simp add: deck_ABC_def run_eval)

lemma parseSlide_heading:
  assumes "collect_notes raw = (content, [])" and "trim content = body" and "body \<noteq> []"
    and "extractTitle body i = t" and "markdownToHtml rt body = Inr h"
  shows "parseSlide rt raw i =
    Inr \<lparr>slide_id = i, slide_title = t, slide_markdown = body, slide_html = h, slide_notes = NO_NOTES\<rparr>"
  using assms by (simp add: parseSlide_collect Let_def trim_def)

lemma compile_deck_ABC:
  assumes "markdownToHtml rt (js ''# A'') = Inr hA"
    and "markdownToHtml rt (js ''# B'') = Inr hB"
    and "markdownToHtml rt (js ''# C'') = Inr hC"
  shows "parseSlides rt deck_ABC =
    Inr [\<lparr>slide_id = 0, slide_title = js ''A'', slide_markdown = js ''# A'', slide_html = hA, slide_notes = NO_NOTES\<rparr>,
         \<lparr>slide_id = 1, slide_title = js ''B'', slide_markdown = js ''# B'', slide_html = hB, slide_notes = NO_NOTES\<rparr>,
         \<lparr>slide_id = 2, slide_title = js ''C'', slide_markdown = js ''# C'', slide_html = hC, slide_notes = NO_NOTES\<rparr>]"
proof -
  have a: "parseSlide rt (js ''# A'' @ [LF]) 0 =
      Inr \<lparr>slide_id = 0, slide_title = js ''A'', slide_markdown = js ''# A'', slide_html = hA, slide_notes = NO_NOTES\<rparr>"
    by (rule parseSlide_heading [where content = "js ''# A'' @ [LF]"])
       (simp_all add: collect_notes_def extractTitle_def run_eval assms [unfolded js_def, simplified])
  have b: "parseSlide rt (LF # js ''# B'' @ [LF]) 1 =
      Inr \<lparr>slide_id = 1, slide_title = js ''B'', slide_markdown = js ''# B'', slide_html = hB, slide_notes = NO_NOTES\<rparr>"
    by (rule parseSlide_heading [where content = "LF # js ''# B'' @ [LF]"])
       (simp_all add: collect_notes_def extractTitle_def run_eval assms [unfolded js_def, simplified])
  have c: "parseSlide rt (LF # js ''# C'') 2 =
      Inr \<lparr>slide_id = 2, slide_title = js ''C'', slide_markdown = js ''# C'', slide_html = hC, slide_notes = NO_NOTES\<rparr>"
    by (rule parseSlide_heading [where content = "LF # js ''# C''"])
       (simp_all add: collect_notes_def extractTitle_def run_eval assms [unfolded js_def, simplified])
  have idx: "[0..<Suc (Suc (Suc 0))] = [0, Suc 0, Suc (Suc 0)]" by (simp add: upt_rec)
  show ?thesis
    by (simp add: parseSlides_def split_deck_ABC idx a b [unfolded One_nat_def] c [unfolded numeral_2_eq_2] numeral_2_eq_2
          del: upt_Suc)
qed

text \<open>A runtime for examples: \<^verbatim>\<open>marked\<close> returns the text unchanged.\<close>

definition plain_runtime :: runtime where
  "plain_runtime = \<lparr>toLowerCase = (\<lambda>s. s), marked_parse = (\<lambda>renderer content. Inr content)\<rparr>"


section \<open>The enhancement pipeline\<close>

subsection \<open>The DOM subtree\<close>

text \<open>
  A node of the subtree is a text node or an element with its \<^verbatim>\<open>tagName\<close> (upper case for an
  HTML element, as the DOM reports it), its attributes in order, and its children.
\<close>

datatype node =
    Text jsstring
  | Element jsstring "(jsstring \<times> jsstring) list" "node list"

type_synonym attributes = "(jsstring \<times> jsstring) list"

definition isAsciiWhitespace :: "nat \<Rightarrow> bool" where
  "isAsciiWhitespace c \<longleftrightarrow> c = 9 \<or> c = 10 \<or> c = 12 \<or> c = 13 \<or> c = 32"

text \<open>The tokens of a \<^verbatim>\<open>class\<close> attribute: split on ASCII white space, as an ordered set.\<close>

function tokens :: "jsstring \<Rightarrow> jsstring list" where
  "tokens [] = []"
| "tokens (c # cs) =
     (if isAsciiWhitespace c then tokens cs
      else (c # takeWhile (\<lambda>x. \<not> isAsciiWhitespace x) cs) #
           tokens (dropWhile (\<lambda>x. \<not> isAsciiWhitespace x) cs))"
  by pat_completeness auto
termination
  by (relation "measure length") (auto simp: le_imp_less_Suc length_dropWhile_le)

definition classList :: "attributes \<Rightarrow> jsstring list" where
  "classList attrs = (case map_of attrs (js ''class'') of None \<Rightarrow> [] | Some v \<Rightarrow> remdups (tokens v))"

definition hasClass :: "attributes \<Rightarrow> jsstring \<Rightarrow> bool" where
  "hasClass attrs c \<longleftrightarrow> c \<in> set (classList attrs)"

fun setAttribute :: "attributes \<Rightarrow> jsstring \<Rightarrow> jsstring \<Rightarrow> attributes" where
  "setAttribute [] name val = [(name, val)]"
| "setAttribute ((n, v) # rest) name val =
     (if n = name then (n, val) # rest else (n, v) # setAttribute rest name val)"

text \<open>\<^verbatim>\<open>classList.add(token)\<close> and \<^verbatim>\<open>classList.toggle(token, force)\<close>.\<close>

definition classList_add :: "attributes \<Rightarrow> jsstring \<Rightarrow> attributes" where
  "classList_add attrs token =
     setAttribute attrs (js ''class'')
       (join [32] (if token \<in> set (classList attrs) then classList attrs else classList attrs @ [token]))"

definition classList_toggle :: "attributes \<Rightarrow> jsstring \<Rightarrow> bool \<Rightarrow> attributes" where
  "classList_toggle attrs token force =
     (if token \<in> set (classList attrs) then
        (if force then attrs
         else setAttribute attrs (js ''class'') (join [32] (removeAll token (classList attrs))))
      else if force then classList_add attrs token
      else attrs)"

text \<open>The children that \<^verbatim>\<open>textContent = s\<close> leaves, and \<^verbatim>\<open>textContent\<close> read back.\<close>

definition text_children :: "jsstring \<Rightarrow> node list" where
  "text_children s = (if s = [] then [] else [Text s])"


subsection \<open>The engines\<close>

text \<open>
  What \<^verbatim>\<open>resolveLanguage\<close> returns when it is not \<^verbatim>\<open>null\<close>: a bundled language, or, since
  the lookup \<^verbatim>\<open>LANG_ALIAS[normalized]\<close> follows the prototype chain, a value inherited from
  \<^verbatim>\<open>Object.prototype\<close>.
\<close>

datatype language = Bundled jsstring | Inherited jsstring

text \<open>
  The engines and the HTML parser of the browser are parameters: the highlighter
  (\<open>None\<close> while it is \<^verbatim>\<open>null\<close>) returns markup or throws,
  \<open>parseFirstElement\<close> is \<^verbatim>\<open>new DOMParser().parseFromString(html, 'text/html').body.firstElementChild\<close>,
  \<open>katex_render\<close> is \<^verbatim>\<open>katex.renderToString\<close> with the expression and the display mode, and
  \<open>parseFragment\<close> gives the children that \<^verbatim>\<open>innerHTML = html\<close> leaves.
\<close>

record engines =
  highlighter :: "(jsstring \<Rightarrow> language \<Rightarrow> jsstring \<Rightarrow> js_error + jsstring) option"
  parseFirstElement :: "jsstring \<Rightarrow> node option"
  katex_render :: "jsstring \<Rightarrow> bool \<Rightarrow> js_error + jsstring"
  parseFragment :: "jsstring \<Rightarrow> node list"

definition LANG_ALIAS :: "(jsstring \<times> jsstring) list" where
  "LANG_ALIAS =
     [(js ''js'', js ''javascript''), (js ''javascript'', js ''javascript''),
      (js ''ts'', js ''typescript''), (js ''typescript'', js ''typescript''),
      (js ''py'', js ''python''), (js ''python'', js ''python''),
      (js ''json'', js ''json''), (js ''bash'', js ''bash''), (js ''sh'', js ''bash''),
      (js ''md'', js ''markdown''), (js ''markdown'', js ''markdown'')]"

definition resolveLanguage :: "(jsstring \<Rightarrow> jsstring) \<Rightarrow> jsstring \<Rightarrow> language option" where
  "resolveLanguage lc rawLang =
     (if rawLang = [] then None
      else (let normalized = lc (trim rawLang)
            in case map_of LANG_ALIAS normalized of
                 Some l \<Rightarrow> Some (Bundled l)
               | None \<Rightarrow>
                   if normalized \<in> set OBJECT_PROTOTYPE_KEYS then Some (Inherited normalized)
                   else None))"

subsection \<open>The code stage\<close>

definition plainPre :: "jsstring \<Rightarrow> node" where
  "plainPre code =
     Element (js ''PRE'') [(js ''class'', js ''deck-code deck-code-plain'')]
       [Element (js ''CODE'') [] (text_children code)]"

text \<open>
  The loop over \<^verbatim>\<open>querySelectorAll('.line')\<close> of the highlighted block: every descendant with
  the class \<^verbatim>\<open>line\<close>, in document order, gets its class, its 1-based line number and its
  delay. The inline style declaration is recorded under the name \<^verbatim>\<open>style.animationDelay\<close>.
\<close>

definition decorate_line :: "attributes \<Rightarrow> nat \<Rightarrow> attributes" where
  "decorate_line attrs index =
     setAttribute
       (setAttribute (classList_add attrs (js ''deck-code-line''))
          (js ''data-line-number'') (digits (index + 1)))
       (js ''style.animationDelay'') (digits (index * 70) @ js ''ms'')"

fun number_lines :: "nat \<Rightarrow> node \<Rightarrow> node \<times> nat"
  and number_lines_list :: "nat \<Rightarrow> node list \<Rightarrow> node list \<times> nat" where
  "number_lines index (Text t) = (Text t, index)"
| "number_lines index (Element tag attrs kids) =
     (if hasClass attrs (js ''line'') then
        (let (kids', index') = number_lines_list (index + 1) kids
         in (Element tag (decorate_line attrs index) kids', index'))
      else
        (let (kids', index') = number_lines_list index kids
         in (Element tag attrs kids', index')))"
| "number_lines_list index [] = ([], index)"
| "number_lines_list index (k # ks) =
     (let (k', index') = number_lines index k;
          (ks', index'') = number_lines_list index' ks
      in (k' # ks', index''))"

definition decorate :: "bool \<Rightarrow> node \<Rightarrow> node" where
  "decorate showLineNumbers highlightedPre =
     (case highlightedPre of
        Text t \<Rightarrow> Text t
      | Element tag attrs kids \<Rightarrow>
          Element tag
            (classList_toggle (classList_add attrs (js ''deck-code'')) (js ''deck-code-with-lines'')
               showLineNumbers)
            (fst (number_lines_list 0 kids)))"


text \<open>
  One turn of the loop of \<^verbatim>\<open>enhanceCodeBlocks\<close>: what replaces the placeholder with these
  attributes, or \<open>None\<close> when the loop leaves it in place (\<^verbatim>\<open>continue\<close>).
\<close>

definition replacement ::
  "(jsstring \<Rightarrow> jsstring) \<Rightarrow> engines \<Rightarrow> jsstring \<Rightarrow> bool \<Rightarrow> attributes \<Rightarrow> node option" where
  "replacement lc eng theme showLineNumbers attrs =
     (let code = decodeDatasetValue (map_of attrs (js ''data-code''));
          rawLang = decodeDatasetValue (map_of attrs (js ''data-lang''));
          lang = resolveLanguage lc rawLang
      in case (highlighter eng, lang) of
           (Some codeToHtml, Some l) \<Rightarrow>
             (case codeToHtml code l theme of
                Inl e \<Rightarrow> Some (plainPre code)
              | Inr html \<Rightarrow>
                  (case parseFirstElement eng html of
                     None \<Rightarrow> None
                   | Some highlightedPre \<Rightarrow> Some (decorate showLineNumbers highlightedPre)))
         | _ \<Rightarrow> Some (plainPre code))"



subsection \<open>The math stage\<close>

definition MATH :: pattern where
  "MATH = \<lparr>re = Alt (cat [lits ''$$'', Group 0 (Rep AnyChar 1 None False), lits ''$$''])
                     (cat [lits ''$'', Group 1 (Rep (NoneOf [36, 10]) 1 None False), lits ''$'']),
            fl = \<lparr>ignoreCase = False, multiline = False\<rparr>, ngroups = 2\<rparr>"

definition DISALLOWED_TAGS :: "jsstring list" where
  "DISALLOWED_TAGS = [js ''PRE'', js ''CODE'', js ''SCRIPT'', js ''STYLE'', js ''TEXTAREA'', js ''SVG'']"

text \<open>
  \<open>shouldSkipMathNode\<close> takes the chain of ancestor elements of the text node, the parent
  first (empty when the node has no parent element): \<^verbatim>\<open>closest('.katex')\<close> looks at the
  whole chain, the tag test at the parent only.
\<close>

definition shouldSkipMathNode :: "(jsstring \<times> attributes) list \<Rightarrow> bool" where
  "shouldSkipMathNode ancestors =
     (case ancestors of
        [] \<Rightarrow> True
      | (tagName, attrs) # _ \<Rightarrow>
          if \<exists>(t, a) \<in> set ancestors. hasClass a (js ''katex'') then True
          else tagName \<in> set DISALLOWED_TAGS)"

definition participates :: "captures \<Rightarrow> nat \<Rightarrow> bool" where
  "participates c k \<longleftrightarrow> k < length c \<and> c ! k \<noteq> None"

definition mathNode :: "engines \<Rightarrow> jsstring \<Rightarrow> nat \<times> nat \<times> captures \<Rightarrow> node" where
  "mathNode eng originalText m =
     (case m of (b, e, c) \<Rightarrow>
        (let matchedText = slice originalText b e;
             expression = trim (if participates c 0 then capture originalText c 0
                                else if participates c 1 then capture originalText c 1
                                else []);
             displayMode = (participates c 0 \<and> capture originalText c 0 \<noteq> [])
         in Element (if displayMode then js ''DIV'' else js ''SPAN'')
              [(js ''class'', if displayMode then js ''math-display'' else js ''math-inline'')]
              (case katex_render eng expression displayMode of
                 Inr html \<Rightarrow> parseFragment eng html
               | Inl err \<Rightarrow> text_children matchedText)))"

fun math_fragment :: "engines \<Rightarrow> jsstring \<Rightarrow> (nat \<times> nat \<times> captures) list \<Rightarrow> nat \<Rightarrow> node list" where
  "math_fragment eng originalText [] cursor =
     (if cursor < length originalText then [Text (slice originalText cursor (length originalText))]
      else [])"
| "math_fragment eng originalText ((b, e, c) # ms) cursor =
     (if b > cursor then [Text (slice originalText cursor b)] else []) @
     [mathNode eng originalText (b, e, c)] @
     math_fragment eng originalText ms (b + length (slice originalText b e))"

text \<open>What replaces a target text node: the node itself when the pattern matches nowhere.\<close>

definition replace_math :: "engines \<Rightarrow> jsstring \<Rightarrow> node list" where
  "replace_math eng originalText =
     (case match_all MATH originalText 0 of
        [] \<Rightarrow> [Text originalText]
      | ms \<Rightarrow> math_fragment eng originalText ms 0)"

fun enhanceMathNode :: "engines \<Rightarrow> (jsstring \<times> attributes) list \<Rightarrow> node \<Rightarrow> node list" where
  "enhanceMathNode eng ancestors (Text t) =
     (if 36 \<in> set t \<and> \<not> shouldSkipMathNode ancestors then replace_math eng t else [Text t])"
| "enhanceMathNode eng ancestors (Element tag attrs kids) =
     [Element tag attrs (concat (map (enhanceMathNode eng ((tag, attrs) # ancestors)) kids))]"

text \<open>\<open>outer\<close> is the chain of ancestors of the root itself.\<close>

definition enhanceMath :: "engines \<Rightarrow> (jsstring \<times> attributes) list \<Rightarrow> node \<Rightarrow> node" where
  "enhanceMath eng outer root =
     (case root of
        Text t \<Rightarrow> Text t
      | Element tag attrs kids \<Rightarrow>
          Element tag attrs (concat (map (enhanceMathNode eng ((tag, attrs) # outer)) kids)))"

section \<open>Decoding what was encoded\<close>

lemma unhex_hexDigit: "d < 16 \<Longrightarrow> unhex (hexDigit d) = Some d"
  by (auto simp: unhex_def hexDigit_def)

lemma pct_byte_pct: "b < 256 \<Longrightarrow> pct_byte (pct b @ rest) = Some (b, rest)"
  by (simp add: pct_def unhex_hexDigit)

lemma pct_bytes_pct:
  "\<forall>b \<in> set bs. b < 256 \<Longrightarrow> pct_bytes (length bs) (concat (map pct bs) @ rest) = Some (bs, rest)"
  by (induction bs) (simp_all add: pct_byte_pct)

lemma decode_pct:
  assumes "b < 256"
  shows "decodeURIComponent (pct b @ r) =
     (if leadingOnes b = 0 then map_sum id ((#) b) (decodeURIComponent r)
      else if leadingOnes b = 1 \<or> 4 < leadingOnes b then Inl URIError
      else (case pct_bytes (leadingOnes b - 1) r of
              None \<Rightarrow> Inl URIError
            | Some (bs, r') \<Rightarrow>
                (case utf8_decode (b # bs) of
                   None \<Rightarrow> Inl URIError
                 | Some cp \<Rightarrow> map_sum id ((@) (utf16 cp)) (decodeURIComponent r'))))"
proof -
  have "pct b @ r = 37 # (hexDigit (b div 16) # hexDigit (b mod 16) # r)" by (simp add: pct_def)
  moreover have "pct_byte (37 # (hexDigit (b div 16) # hexDigit (b mod 16) # r)) = Some (b, r)"
    using pct_byte_pct [OF assms, of r] by (simp add: pct_def)
  ultimately show ?thesis by (simp del: pct_byte.simps)
qed

lemma utf8_bytes_small: "cp \<le> 1114111 \<Longrightarrow> \<forall>b \<in> set (utf8 cp). b < 256"
  by (auto simp: utf8_def)

lemma split_base64_3: "(cp::nat) div 4096 * 4096 + cp div 64 mod 64 * 64 + cp mod 64 = cp"
proof -
  have q: "cp div 4096 = cp div 64 div 64" by (simp add: div_mult2_eq)
  have "cp div 64 div 64 * 64 + cp div 64 mod 64 = cp div 64" by simp
  then have "cp div 64 div 64 * 4096 + cp div 64 mod 64 * 64 = cp div 64 * 64" by linarith
  moreover have "cp div 64 * 64 + cp mod 64 = cp" by simp
  ultimately show ?thesis unfolding q by linarith
qed

lemma split_base64_4:
  "(cp::nat) div 262144 * 262144 + cp div 4096 mod 64 * 4096 + cp div 64 mod 64 * 64 + cp mod 64 = cp"
proof -
  have q: "cp div 262144 = cp div 4096 div 64" by (simp add: div_mult2_eq)
  have "cp div 4096 div 64 * 64 + cp div 4096 mod 64 = cp div 4096" by simp
  then have "cp div 4096 div 64 * 262144 + cp div 4096 mod 64 * 4096 = cp div 4096 * 4096" by linarith
  with split_base64_3 [of cp] show ?thesis unfolding q by linarith
qed

lemma decode_group:
  assumes "cp \<le> 1114111" and "\<not> (55296 \<le> cp \<and> cp \<le> 57343)"
  shows "decodeURIComponent (concat (map pct (utf8 cp)) @ rest) =
         map_sum id ((@) (utf16 cp)) (decodeURIComponent rest)"
proof -
  consider "cp < 128" | "128 \<le> cp" "cp < 2048" | "2048 \<le> cp" "cp < 65536" | "65536 \<le> cp"
    by linarith
  then show ?thesis
  proof cases
    case 1
    then show ?thesis
      by (cases "decodeURIComponent rest") (simp_all add: utf8_def decode_pct leadingOnes_def utf16_def)
  next
    case 2
    define b0 where "b0 = 192 + cp div 64"
    define b1 where "b1 = 128 + cp mod 64"
    have b: "b0 < 256" "b1 < 256" using 2 by (auto simp: b0_def b1_def)
    have l: "leadingOnes b0 = 2" using 2 by (auto simp: leadingOnes_def b0_def)
    have d: "utf8_decode [b0, b1] = Some cp"
      using 2 by (auto simp: isContinuation_def Let_def b0_def b1_def)
    have pb: "pct_bytes (Suc 0) (pct b1 @ rest) = Some ([b1], rest)"
      using pct_bytes_pct [of "[b1]" rest] b by (simp del: pct_bytes.simps)
    have e: "concat (map pct (utf8 cp)) @ rest = pct b0 @ pct b1 @ rest"
      using 2 by (simp add: utf8_def b0_def b1_def)
    show ?thesis
      unfolding e by (simp add: decode_pct [OF b(1)] l pb d del: pct_bytes.simps utf8_decode.simps)
  next
    case 3
    define b0 where "b0 = 224 + cp div 4096"
    define b1 where "b1 = 128 + cp div 64 mod 64"
    define b2 where "b2 = 128 + cp mod 64"
    have b: "b0 < 256" "b1 < 256" "b2 < 256" using 3 by (auto simp: b0_def b1_def b2_def)
    have l: "leadingOnes b0 = 3" using 3 by (auto simp: leadingOnes_def b0_def)
    from split_base64_3 [of cp] have d: "utf8_decode [b0, b1, b2] = Some cp"
      using 3 assms(2) by (auto simp: isContinuation_def Let_def b0_def b1_def b2_def)
    have pb: "pct_bytes 2 (pct b1 @ pct b2 @ rest) = Some ([b1, b2], rest)"
      using pct_bytes_pct [of "[b1, b2]" rest] b by (simp add: numeral_2_eq_2 del: pct_bytes.simps)
    have e: "concat (map pct (utf8 cp)) @ rest = pct b0 @ pct b1 @ pct b2 @ rest"
      using 3 by (simp add: utf8_def b0_def b1_def b2_def)
    show ?thesis
      unfolding e by (simp add: decode_pct [OF b(1)] l pb d del: pct_bytes.simps utf8_decode.simps)
  next
    case 4
    define b0 where "b0 = 240 + cp div 262144"
    define b1 where "b1 = 128 + cp div 4096 mod 64"
    define b2 where "b2 = 128 + cp div 64 mod 64"
    define b3 where "b3 = 128 + cp mod 64"
    have b: "b0 < 256" "b1 < 256" "b2 < 256" "b3 < 256"
      using 4 assms(1) by (auto simp: b0_def b1_def b2_def b3_def)
    have l: "leadingOnes b0 = 4" using 4 assms(1) by (auto simp: leadingOnes_def b0_def)
    from split_base64_4 [of cp] have d: "utf8_decode [b0, b1, b2, b3] = Some cp"
      using 4 assms(1) by (auto simp: isContinuation_def Let_def b0_def b1_def b2_def b3_def)
    have pb: "pct_bytes 3 (pct b1 @ pct b2 @ pct b3 @ rest) = Some ([b1, b2, b3], rest)"
      using pct_bytes_pct [of "[b1, b2, b3]" rest] b by (simp add: numeral_3_eq_3 del: pct_bytes.simps)
    have e: "concat (map pct (utf8 cp)) @ rest = pct b0 @ pct b1 @ pct b2 @ pct b3 @ rest"
      using 4 by (simp add: utf8_def b0_def b1_def b2_def b3_def)
    show ?thesis
      unfolding e by (simp add: decode_pct [OF b(1)] l pb d del: pct_bytes.simps utf8_decode.simps)
  qed
qed


lemma decode_encode:
  "\<forall>c \<in> set s. c < 65536 \<Longrightarrow> encodeURIComponent s = Inr enc \<Longrightarrow> decodeURIComponent enc = Inr s"
proof (induction s arbitrary: enc rule: encodeURIComponent.induct)
  case 1
  then show ?case by simp
next
  case (2 c cs)
  note units = "2.prems"(1) and encoded = "2.prems"(2)
  show ?case
  proof (cases "uriUnreserved c")
    case True
    with encoded obtain enc' where e: "encodeURIComponent cs = Inr enc'" "enc = c # enc'"
      by (cases "encodeURIComponent cs") auto
    from True have "c \<noteq> 37" by (auto simp: uriUnreserved_def js_def)
    moreover have "decodeURIComponent enc' = Inr cs"
      using "2.IH"(1) [OF True _ e(1)] units by simp
    ultimately show ?thesis using e by simp
  next
    case False
    show ?thesis
    proof (cases "isLeadSurrogate c")
      case lead: True
      with False encoded obtain d ds where cs: "cs = d # ds" and trail: "isTrailSurrogate d"
        by (cases cs) (auto split: if_splits)
      define cp where "cp = (c - 55296) * 1024 + (d - 56320) + 65536"
      from False lead cs trail encoded obtain enc' where
        e: "encodeURIComponent ds = Inr enc'" "enc = concat (map pct (utf8 cp)) @ enc'"
        by (cases "encodeURIComponent ds") (auto simp: cp_def)
      have ih: "decodeURIComponent enc' = Inr ds"
        using "2.IH"(2) [OF False lead cs trail _ e(1)] units cs by simp
      have r: "cp \<le> 1114111" "\<not> (55296 \<le> cp \<and> cp \<le> 57343)" "65536 \<le> cp"
        using lead trail by (auto simp: cp_def isLeadSurrogate_def isTrailSurrogate_def)
      have lo: "d - 56320 < 1024" using trail by (auto simp: isTrailSurrogate_def)
      have eq: "cp - 65536 = (c - 55296) * 1024 + (d - 56320)" by (simp add: cp_def)
      have "(cp - 65536) div 1024 = c - 55296" "(cp - 65536) mod 1024 = d - 56320"
        unfolding eq using lo by simp_all
      then have u: "utf16 cp = [c, d]"
        using r lead trail by (auto simp: utf16_def isLeadSurrogate_def isTrailSurrogate_def)
      show ?thesis
        unfolding e(2) by (simp add: decode_group [OF r(1,2)] ih u cs)
    next
      case nolead: False
      with False encoded have notrail: "\<not> isTrailSurrogate c" by (auto split: if_splits)
      from False nolead notrail encoded obtain enc' where
        e: "encodeURIComponent cs = Inr enc'" "enc = concat (map pct (utf8 c)) @ enc'"
        by (cases "encodeURIComponent cs") auto
      have ih: "decodeURIComponent enc' = Inr cs"
        using "2.IH"(3) [OF False nolead notrail _ e(1)] units by simp
      have r: "c \<le> 1114111" "\<not> (55296 \<le> c \<and> c \<le> 57343)" "c < 65536"
        using nolead notrail units by (auto simp: isLeadSurrogate_def isTrailSurrogate_def)
      show ?thesis
        unfolding e(2) by (simp add: decode_group [OF r(1,2)] ih utf16_def r(3))
    qed
  qed
qed


text \<open>The strings whose elements are code units (16 bits).\<close>

definition code_units :: "jsstring \<Rightarrow> bool" where
  "code_units s \<longleftrightarrow> list_all (\<lambda>c. c < 65536) s"

lemma pct_attribute_safe: "c \<in> set (pct b) \<Longrightarrow> c \<noteq> 34 \<and> c \<noteq> 38"
  by (auto simp: pct_def hexDigit_def split: if_splits)

lemma unreserved_attribute_safe: "uriUnreserved c \<Longrightarrow> c \<noteq> 34 \<and> c \<noteq> 38"
  by (auto simp: uriUnreserved_def js_def)

lemma encoded_attribute_safe:
  "encodeURIComponent s = Inr enc \<Longrightarrow> 34 \<notin> set enc \<and> 38 \<notin> set enc"
proof (induction s arbitrary: enc rule: encodeURIComponent.induct)
  case 1
  then show ?case by simp
next
  case (2 c cs)
  note encoded = "2.prems"
  show ?case
  proof (cases "uriUnreserved c")
    case True
    with encoded obtain enc' where e: "encodeURIComponent cs = Inr enc'" "enc = c # enc'"
      by (cases "encodeURIComponent cs") auto
    with "2.IH"(1) [OF True e(1)] unreserved_attribute_safe [OF True] show ?thesis by simp
  next
    case False
    show ?thesis
    proof (cases "isLeadSurrogate c")
      case lead: True
      with False encoded obtain d ds where cs: "cs = d # ds" and trail: "isTrailSurrogate d"
        by (cases cs) (auto split: if_splits)
      from False lead cs trail encoded obtain enc' bs where
        e: "encodeURIComponent ds = Inr enc'" "enc = concat (map pct bs) @ enc'"
        by (cases "encodeURIComponent ds") auto
      with "2.IH"(2) [OF False lead cs trail e(1)] show ?thesis
        by (auto dest: pct_attribute_safe)
    next
      case nolead: False
      with False encoded have notrail: "\<not> isTrailSurrogate c" by (auto split: if_splits)
      from False nolead notrail encoded obtain enc' bs where
        e: "encodeURIComponent cs = Inr enc'" "enc = concat (map pct bs) @ enc'"
        by (cases "encodeURIComponent cs") auto
      with "2.IH"(3) [OF False nolead notrail e(1)] show ?thesis
        by (auto dest: pct_attribute_safe)
    qed
  qed
qed

lemma replaceAll_set: "set (replaceAll c r s) \<subseteq> (set s - {c}) \<union> set r"
  by (induction s) (auto simp: replaceAll_def)

lemma escapeHtml_no_quote: "34 \<notin> set (escapeHtml s)"
proof -
  let ?inner = "replaceAll 62 (js ''&gt;'') (replaceAll 60 (js ''&lt;'') (replaceAll 38 (js ''&amp;'') s))"
  have "34 \<notin> set (replaceAll 34 (js ''&quot;'') ?inner)"
    using replaceAll_set [of 34 "js ''&quot;''" ?inner] by (auto simp: js_def)
  then show ?thesis
    using replaceAll_set [of 39 "js ''&#39;''" "replaceAll 34 (js ''&quot;'') ?inner"]
    by (auto simp: escapeHtml_def js_def)
qed

lemma decodeDatasetValue_encoded:
  assumes "code_units s" and "encodeURIComponent s = Inr enc"
  shows "decodeDatasetValue (Some enc) = s"
proof -
  from assms have d: "decodeURIComponent enc = Inr s"
    by (intro decode_encode) (simp_all add: code_units_def list_all_iff)
  show ?thesis
  proof (cases "enc = []")
    case True
    with d show ?thesis by (simp add: decodeDatasetValue_def)
  next
    case False
    with d show ?thesis by (simp add: decodeDatasetValue_def)
  qed
qed

text \<open>
  Claim C8. For every fenced code or diagram block for which the renderer emits a
  placeholder, the placeholder is the \<^verbatim>\<open>div\<close> with \<^verbatim>\<open>data-mermaid\<close> or the \<^verbatim>\<open>pre\<close> with
  \<^verbatim>\<open>data-code\<close>, the encoded attribute value contains no double quote and no ampersand (and
  the language attribute before it no double quote), so the HTML parser reads it back
  unchanged, and \<open>decodeDatasetValue\<close> of it is exactly the fence content: the empty string
  and strings with quote characters included.
\<close>

theorem placeholder_decodes_to_fence_content:
  assumes "code_units (tok_text tok)" and "renderer_code lc tok = Inr html"
  shows \<open>\<exists>enc cleanLang.
           encodeURIComponent (tok_text tok) = Inr enc \<and>
           (html = js ''<div class="md-mermaid" data-mermaid="'' @ enc @ js ''"></div>'' \<or>
            html = js ''<pre class="md-code" data-lang="'' @ escapeHtml cleanLang @
                   js ''" data-code="'' @ enc @ js ''"></pre>'') \<and>
           34 \<notin> set enc \<and> 38 \<notin> set enc \<and> 34 \<notin> set (escapeHtml cleanLang) \<and>
           decodeDatasetValue (Some enc) = tok_text tok\<close>
proof -
  from assms(2) obtain enc where enc: "encodeURIComponent (tok_text tok) = Inr enc"
    by (cases "encodeURIComponent (tok_text tok)") (auto simp: renderer_code_def)
  define cleanLang where "cleanLang = lc (trim (case tok_lang tok of None \<Rightarrow> [] | Some l \<Rightarrow> l))"
  from assms(2) enc have
    \<open>html = js ''<div class="md-mermaid" data-mermaid="'' @ enc @ js ''"></div>'' \<or>
     html = js ''<pre class="md-code" data-lang="'' @ escapeHtml cleanLang @
            js ''" data-code="'' @ enc @ js ''"></pre>''\<close>
    by (auto simp: renderer_code_def Let_def cleanLang_def split: if_splits)
  with enc encoded_attribute_safe [OF enc] escapeHtml_no_quote [of cleanLang]
    decodeDatasetValue_encoded [OF assms(1) enc]
  show ?thesis by blast
qed

declare encodeURIComponent.simps(2) [simp del]
declare decodeURIComponent.simps(2) [simp del]

lemma encode_unreserved:
  "uriUnreserved c \<Longrightarrow> encodeURIComponent (c # cs) = map_sum id ((#) c) (encodeURIComponent cs)"
  by (simp add: encodeURIComponent.simps(2))

lemma encode_escaped:
  "\<not> uriUnreserved c \<Longrightarrow> c < 55296 \<Longrightarrow>
   encodeURIComponent (c # cs) = map_sum id ((@) (concat (map pct (utf8 c)))) (encodeURIComponent cs)"
  by (simp add: encodeURIComponent.simps(2) isLeadSurrogate_def isTrailSurrogate_def)

lemma encode_example: "encodeURIComponent [97, 34, 32, 233] = Inr (js ''a%22%20%C3%A9'')"
  by (simp add: encode_unreserved encode_escaped uriUnreserved_def utf8_def pct_def hexDigit_def js_def)

theorem placeholder_decodes_to_fence_content_witness:
  \<open>code_units [97, 34, 32, 233] \<and>
   renderer_code (\<lambda>s. s) \<lparr>tok_text = [97, 34, 32, 233], tok_lang = Some (js ''ts'')\<rparr> =
     Inr (js ''<pre class="md-code" data-lang="ts" data-code="a%22%20%C3%A9"></pre>'') \<and>
   decodeDatasetValue (Some (js ''a%22%20%C3%A9'')) = [97, 34, 32, 233]\<close>
proof -
  let ?tok = "\<lparr>tok_text = [97, 34, 32, 233], tok_lang = Some (js ''ts'')\<rparr>"
  have u: "code_units (tok_text ?tok)"
    by (simp add: code_units_def)
  have r: \<open>renderer_code (\<lambda>s. s) ?tok =
     Inr (js ''<pre class="md-code" data-lang="ts" data-code="a%22%20%C3%A9"></pre>'')\<close>
    by (simp add: renderer_code_def encode_example trim_def isWhiteSpace_def escapeHtml_def
        replaceAll_def js_def)
  from placeholder_decodes_to_fence_content [OF u r] obtain enc
    where e: "encodeURIComponent (tok_text ?tok) = Inr enc"
      and d: "decodeDatasetValue (Some enc) = tok_text ?tok"
    by blast
  from e have "enc = js ''a%22%20%C3%A9''" by (simp add: encode_example)
  with d have "decodeDatasetValue (Some (js ''a%22%20%C3%A9'')) = [97, 34, 32, 233]" by simp
  with u r show ?thesis by simp
qed





section \<open>The math stage on highlighted code\<close>

lemmas math_eval = MATH_def exec_at_def exec_from_def cat_def lits_def rep_counts_def
  char_eq_def slice_def Let_def capture_def participates_def js_def match_all.simps
  replace_math_def mathNode_def trim_def isWhiteSpace_def text_children_def

text \<open>Engines for examples: the math engine returns the expression as its markup.\<close>

definition echo_engines :: engines where
  "echo_engines =
     \<lparr>highlighter = None,
      parseFirstElement = (\<lambda>html. None),
      katex_render = (\<lambda>expression displayMode. Inr expression),
      parseFragment = (\<lambda>html. [Text html])\<rparr>"

lemma replace_math_example:
  "replace_math echo_engines (js ''$a$'') =
     [Element (js ''SPAN'') [(js ''class'', js ''math-inline'')] [Text (js ''a'')]]"
  by (simp add: math_eval echo_engines_def)

lemma skip_example:
  "\<not> shouldSkipMathNode
      [(js ''SPAN'', []), (js ''SPAN'', [(js ''class'', js ''line'')]), (js ''CODE'', []),
       (js ''PRE'', [(js ''class'', js ''shiki'')]), (js ''DIV'', [(js ''class'', js ''slide-markdown'')])]"
  by (simp add: shouldSkipMathNode_def hasClass_def classList_def DISALLOWED_TAGS_def js_def
      isAsciiWhitespace_def)

text \<open>
  Claim C4. The claim is that a text node with any ancestor \<^verbatim>\<open>code\<close> or \<^verbatim>\<open>pre\<close> is never
  modified. The tag test of \<open>shouldSkipMathNode\<close> looks at the parent element only, so in the
  markup that the code stage leaves for a highlighted block (text inside \<^verbatim>\<open>span\<close> inside
  \<^verbatim>\<open>code\<close> inside \<^verbatim>\<open>pre\<close>) the math stage replaces \<^verbatim>\<open>$a$\<close> by a math node.
\<close>

theorem math_stage_rewrites_text_inside_highlighted_code:
  "enhanceMath echo_engines []
     (Element (js ''DIV'') [(js ''class'', js ''slide-markdown'')]
        [Element (js ''PRE'') [(js ''class'', js ''shiki'')]
           [Element (js ''CODE'') []
              [Element (js ''SPAN'') [(js ''class'', js ''line'')]
                 [Element (js ''SPAN'') [] [Text (js ''$a$'')]]]]]) =
   Element (js ''DIV'') [(js ''class'', js ''slide-markdown'')]
     [Element (js ''PRE'') [(js ''class'', js ''shiki'')]
        [Element (js ''CODE'') []
           [Element (js ''SPAN'') [(js ''class'', js ''line'')]
              [Element (js ''SPAN'') []
                 [Element (js ''SPAN'') [(js ''class'', js ''math-inline'')] [Text (js ''a'')]]]]]]"
proof -
  have dollar: "36 \<in> set (js ''$a$'')" by (simp add: js_def)
  show ?thesis
    by (simp add: enhanceMath_def skip_example dollar replace_math_example)
qed

subsection \<open>One run of the pipeline\<close>

text \<open>
  The effect of \<^verbatim>\<open>SlideRenderer\<close> starts \<^verbatim>\<open>run\<close> and returns the disposer. \<^verbatim>\<open>run\<close> writes the
  skeleton and runs the code stage synchronously, then waits at its \<^verbatim>\<open>await\<close>; when it is
  resumed it returns if the run is no longer active, else it runs the math stage and
  schedules the diagram timer. The timer's callback returns if the run is no longer active,
  else it starts one render per diagram placeholder; each render writes into its placeholder
  when it settles (with the diagram or with the error text). The disposer clears the flag
  and, when the timer variable is set, the timer. The state records which stage wrote into
  the subtree, in order, not what it wrote.
\<close>

datatype stage_write = SkeletonWrite | CodeWrite | MathWrite | DiagramWrite nat

record pipeline =
  active :: bool
  mermaidTimer :: "nat option"
  suspended :: bool
  timerPending :: bool
  rendering :: "nat list"
  diagrams :: nat
  writes :: "stage_write list"

text \<open>The state when the effect has run, for a subtree with \<open>n\<close> diagram placeholders.\<close>

definition started :: "nat \<Rightarrow> pipeline" where
  "started n =
     \<lparr>active = True, mermaidTimer = None, suspended = True, timerPending = False,
      rendering = [], diagrams = n, writes = [SkeletonWrite, CodeWrite]\<rparr>"

datatype pipeline_event = Resume | TimerFires | RenderSettles nat | Dispose

fun pipeline_step :: "pipeline_event \<Rightarrow> pipeline \<Rightarrow> pipeline" where
  "pipeline_step Resume st =
     (if suspended st then
        (if active st
         then st\<lparr>suspended := False, writes := writes st @ [MathWrite],
                 mermaidTimer := Some 1, timerPending := True\<rparr>
         else st\<lparr>suspended := False\<rparr>)
      else st)"
| "pipeline_step TimerFires st =
     (if timerPending st then
        (if active st
         then st\<lparr>timerPending := False, rendering := [0..<diagrams st]\<rparr>
         else st\<lparr>timerPending := False\<rparr>)
      else st)"
| "pipeline_step (RenderSettles k) st =
     (if k \<in> set (rendering st)
      then st\<lparr>rendering := removeAll k (rendering st), writes := writes st @ [DiagramWrite k]\<rparr>
      else st)"
| "pipeline_step Dispose st =
     st\<lparr>active := False,
        timerPending := (if mermaidTimer st \<noteq> None then False else timerPending st)\<rparr>"

definition pipeline_run :: "pipeline_event list \<Rightarrow> pipeline \<Rightarrow> pipeline" where
  "pipeline_run evs st = foldl (\<lambda>s ev. pipeline_step ev s) st evs"

fun isDiagramWrite :: "stage_write \<Rightarrow> bool" where
  "isDiagramWrite (DiagramWrite k) = True"
| "isDiagramWrite _ = False"

definition diagram_writes :: "pipeline \<Rightarrow> stage_write list" where
  "diagram_writes st = filter isDiagramWrite (writes st)"


section \<open>No diagram is written after disposal\<close>

definition quiet :: "pipeline \<Rightarrow> bool" where
  "quiet st \<longleftrightarrow>
     rendering st = [] \<and> diagram_writes st = [] \<and> (timerPending st \<longrightarrow> mermaidTimer st \<noteq> None)"

definition disposed :: "pipeline \<Rightarrow> bool" where
  "disposed st \<longleftrightarrow>
     \<not> active st \<and> \<not> timerPending st \<and> rendering st = [] \<and> diagram_writes st = []"

lemma quiet_started: "quiet (started n)"
  by (simp add: quiet_def started_def diagram_writes_def)

lemma quiet_step: "quiet st \<Longrightarrow> ev \<noteq> TimerFires \<Longrightarrow> quiet (pipeline_step ev st)"
  by (cases ev) (auto simp: quiet_def diagram_writes_def)

lemma quiet_run: "quiet st \<Longrightarrow> TimerFires \<notin> set evs \<Longrightarrow> quiet (pipeline_run evs st)"
  unfolding pipeline_run_def
proof (induction evs arbitrary: st)
  case Nil
  then show ?case by simp
next
  case (Cons ev evs)
  from Cons.prems have "ev \<noteq> TimerFires" "TimerFires \<notin> set evs" by auto
  with Cons.prems(1) have "quiet (pipeline_step ev st)" by (simp add: quiet_step)
  with Cons.IH \<open>TimerFires \<notin> set evs\<close> show ?case by simp
qed

lemma disposed_after_Dispose: "quiet st \<Longrightarrow> disposed (pipeline_step Dispose st)"
  by (auto simp: quiet_def disposed_def diagram_writes_def)

lemma disposed_step: "disposed st \<Longrightarrow> disposed (pipeline_step ev st)"
  by (cases ev) (auto simp: disposed_def diagram_writes_def)

lemma disposed_run: "disposed st \<Longrightarrow> disposed (pipeline_run evs st)"
  unfolding pipeline_run_def
  by (induction evs arbitrary: st) (auto intro: disposed_step)

lemma pipeline_run_append:
  "pipeline_run (evs @ ev # evs') st = pipeline_run evs' (pipeline_step ev (pipeline_run evs st))"
  by (simp add: pipeline_run_def)

text \<open>
  Claim C1. For every run of the pipeline: when the disposer executes before the diagram
  timer has fired, then whatever happens afterwards (the run resuming, a late timer event,
  renders settling, further disposals) the diagram stage writes nothing into the subtree,
  never starts a render, and the run stays inactive.
\<close>

theorem no_diagram_write_after_disposal:
  assumes "TimerFires \<notin> set before"
  shows "diagram_writes (pipeline_run (before @ Dispose # after) (started n)) = [] \<and>
         rendering (pipeline_run (before @ Dispose # after) (started n)) = [] \<and>
         \<not> active (pipeline_run (before @ Dispose # after) (started n))"
proof -
  have "quiet (pipeline_run before (started n))"
    using quiet_started assms by (rule quiet_run)
  then have "disposed (pipeline_step Dispose (pipeline_run before (started n)))"
    by (rule disposed_after_Dispose)
  then have "disposed (pipeline_run (before @ Dispose # after) (started n))"
    unfolding pipeline_run_append by (rule disposed_run)
  then show ?thesis by (simp add: disposed_def)
qed

theorem no_diagram_write_after_disposal_witness:
  "TimerFires \<notin> set [Resume] \<and>
   writes (pipeline_run ([Resume] @ Dispose # [TimerFires, RenderSettles 0, Resume]) (started 2)) =
     [SkeletonWrite, CodeWrite, MathWrite] \<and>
   diagram_writes (pipeline_run ([Resume] @ Dispose # [TimerFires, RenderSettles 0, Resume]) (started 2)) = [] \<and>
   writes (pipeline_run [Resume, TimerFires, RenderSettles 0] (started 2)) =
     [SkeletonWrite, CodeWrite, MathWrite, DiagramWrite 0]"
proof -
  have h: "TimerFires \<notin> set [Resume]" by simp
  from no_diagram_write_after_disposal [OF h, of "[TimerFires, RenderSettles 0, Resume]" 2]
  have "diagram_writes (pipeline_run ([Resume] @ Dispose # [TimerFires, RenderSettles 0, Resume]) (started 2)) = []"
    by simp
  moreover have "writes (pipeline_run ([Resume] @ Dispose # [TimerFires, RenderSettles 0, Resume]) (started 2)) =
     [SkeletonWrite, CodeWrite, MathWrite]"
    by (simp add: pipeline_run_def started_def)
  moreover have "writes (pipeline_run [Resume, TimerFires, RenderSettles 0] (started 2)) =
     [SkeletonWrite, CodeWrite, MathWrite, DiagramWrite 0]"
    by (simp add: pipeline_run_def started_def upt_rec)
  ultimately show ?thesis using h by simp
qed

section \<open>Messages of other contexts\<close>







lemma compile_single_heading:
  assumes "collect_notes d = (d, [])" and "split_re SEPARATOR d = [d]" and "trim d = d" and "d \<noteq> []"
    and "extractTitle d 0 = t" and "markdownToHtml rt d = Inr h"
  shows "parseSlides rt d =
    Inr [\<lparr>slide_id = 0, slide_title = t, slide_markdown = d, slide_html = h, slide_notes = NO_NOTES\<rparr>]"
  using assms parseSlide_heading [of d d d 0 t rt h]
  by (simp add: parseSlides_def)

lemma plain_markdownToHtml: "markdownToHtml plain_runtime c = Inr c"
  by (simp add: markdownToHtml_def plain_runtime_def)

lemma compile_A:
  "parseSlides plain_runtime (js ''# A'') =
    Inr [\<lparr>slide_id = 0, slide_title = js ''A'', slide_markdown = js ''# A'', slide_html = js ''# A'',
          slide_notes = NO_NOTES\<rparr>]"
  by (rule compile_single_heading)
     (simp_all add: collect_notes_def extractTitle_def run_eval plain_markdownToHtml)











section \<open>Separator lines\<close>

text \<open>The lines of a text: the pieces between line terminators.\<close>

fun lines_of :: "jsstring \<Rightarrow> jsstring list" where
  "lines_of [] = [[]]"
| "lines_of (c # cs) =
     (if isLineTerminator c then [] # lines_of cs
      else (c # hd (lines_of cs)) # tl (lines_of cs))"

lemma lines_of_nonempty: "lines_of s \<noteq> []"
  by (induction s) auto

lemma hd_lines_of:
  "\<forall>c \<in> set l. \<not> isLineTerminator c \<Longrightarrow> v = [] \<or> isLineTerminator (hd v) \<Longrightarrow>
   hd (lines_of (l @ v)) = l"
proof (induction l)
  case Nil
  then show ?case by (cases v) auto
next
  case (Cons c l)
  then show ?case by simp
qed

lemma lines_after_terminator:
  "u \<noteq> [] \<Longrightarrow> isLineTerminator (last u) \<Longrightarrow> set (lines_of w) \<subseteq> set (tl (lines_of (u @ w)))"
proof (induction u)
  case Nil
  then show ?case by simp
next
  case (Cons c u)
  show ?case
  proof (cases "u = []")
    case True
    with Cons.prems show ?thesis by simp
  next
    case False
    with Cons have ih: "set (lines_of w) \<subseteq> set (tl (lines_of (u @ w)))" by simp
    have "set (tl (lines_of (u @ w))) \<subseteq> set (lines_of (u @ w))"
      using lines_of_nonempty [of "u @ w"] by (cases "lines_of (u @ w)") auto
    with ih show ?thesis by auto
  qed
qed

lemma line_of_decomposition:
  assumes "s = u @ l @ v" and "u = [] \<or> isLineTerminator (last u)"
    and "v = [] \<or> isLineTerminator (hd v)" and "\<forall>c \<in> set l. \<not> isLineTerminator c"
  shows "l \<in> set (lines_of s)"
proof -
  have h: "hd (lines_of (l @ v)) = l" using assms(4,3) by (rule hd_lines_of)
  then have m: "l \<in> set (lines_of (l @ v))"
    using lines_of_nonempty [of "l @ v"] by (cases "lines_of (l @ v)") auto
  show ?thesis
  proof (cases "u = []")
    case True
    with m assms(1) show ?thesis by simp
  next
    case False
    with assms(2) have "set (lines_of (l @ v)) \<subseteq> set (tl (lines_of (u @ l @ v)))"
      by (intro lines_after_terminator) auto
    moreover have "set (tl (lines_of (u @ l @ v))) \<subseteq> set (lines_of (u @ l @ v))"
      using lines_of_nonempty [of "u @ l @ v"] by (cases "lines_of (u @ l @ v)") auto
    ultimately show ?thesis using m assms(1) by auto
  qed
qed

lemma trim_padded:
  assumes "\<forall>x \<in> set a. isWhiteSpace x" and "\<forall>x \<in> set b. isWhiteSpace x"
    and "m \<noteq> []" and "\<not> isWhiteSpace (hd m)" and "\<not> isWhiteSpace (last m)"
  shows "trim (a @ m @ b) = m"
proof -
  from assms(3,4) have "dropWhile isWhiteSpace (m @ b) = m @ b"
    by (cases m) auto
  with assms(1) have 1: "dropWhile isWhiteSpace (a @ m @ b) = m @ b"
    by (simp add: dropWhile_append2)
  from assms(3,5) have "dropWhile isWhiteSpace (rev m) = rev m"
    by (cases "rev m") (auto simp: last_rev [symmetric] hd_rev)
  moreover have "dropWhile isWhiteSpace (rev b @ rev m) = dropWhile isWhiteSpace (rev m)"
    using assms(2) by (intro dropWhile_append2) simp
  ultimately have 2: "dropWhile isWhiteSpace (rev b @ rev m) = rev m" by simp
  show ?thesis by (simp add: trim_def 1 2)
qed

lemma run_Seq_iff:
  "(j, c') \<in> set (run f s (Seq r1 r2) i c) \<longleftrightarrow>
   (\<exists>k c''. (k, c'') \<in> set (run f s r1 i c) \<and> (j, c') \<in> set (run f s r2 k c''))"
  by auto

lemma rep_counts_le:
  "n \<in> set (rep_counts ic s a lo hi g i) \<Longrightarrow>
   n \<le> length (takeWhile (accepts ic a) (drop i s))"
  by (auto simp: rep_counts_def Let_def split: if_splits option.splits)

lemma take_accepted:
  "n \<le> length (takeWhile P xs) \<Longrightarrow> \<forall>x \<in> set (take n xs). P x"
proof (induction xs arbitrary: n)
  case Nil
  then show ?case by simp
next
  case (Cons x xs)
  show ?case
  proof (cases n)
    case 0
    then show ?thesis by simp
  next
    case (Suc k)
    with Cons.prems have "P x" "k \<le> length (takeWhile P xs)" by (auto split: if_splits)
    with Cons.IH [of k] Suc show ?thesis by simp
  qed
qed

lemma run_Rep_segment:
  assumes "(j, c') \<in> set (run f s (Rep a lo hi g) i c)"
  shows "\<exists>w. drop i s = w @ drop j s \<and> (\<forall>x \<in> set w. accepts (ignoreCase f) a x) \<and>
             j = i + length w \<and> lo \<le> length w \<and> c' = c"
proof -
  from assms obtain n where n: "n \<in> set (rep_counts (ignoreCase f) s a lo hi g i)"
    and j: "j = i + n" and c: "c' = c"
    by auto
  let ?P = "accepts (ignoreCase f) a"
  from n have le: "n \<le> length (takeWhile ?P (drop i s))" by (rule rep_counts_le)
  also have "\<dots> \<le> length (drop i s)" by (rule length_takeWhile_le)
  finally have len: "length (take n (drop i s)) = n" by simp
  have "drop i s = take n (drop i s) @ drop j s"
    unfolding j by (metis append_take_drop_id drop_drop add.commute)
  moreover have "\<forall>x \<in> set (take n (drop i s)). ?P x" using le by (rule take_accepted)
  moreover have "lo \<le> n" using n by (rule rep_counts_ge)
  ultimately show ?thesis using len j c by (intro exI [of _ "take n (drop i s)"]) simp
qed

lemma run_Atom_segment:
  assumes "(j, c') \<in> set (run f s (Atom (Lit p)) i c)" and "\<not> ignoreCase f"
  shows "drop i s = p # drop j s \<and> j = Suc i \<and> c' = c"
  using assms by (auto simp: char_eq_def Cons_nth_drop_Suc split: if_splits)

lemma run_Bol_D:
  "(j, c') \<in> set (run f s Bol i c) \<Longrightarrow>
   j = i \<and> c' = c \<and> (i = 0 \<or> (multiline f \<and> i \<le> length s \<and> isLineTerminator (s ! (i - 1))))"
  by (auto split: if_splits)

lemma run_Eol_D:
  "(j, c') \<in> set (run f s Eol i c) \<Longrightarrow>
   j = i \<and> c' = c \<and> (i = length s \<or> (multiline f \<and> i < length s \<and> isLineTerminator (s ! i)))"
  by (auto split: if_splits)

lemma run_Eps_D: "(j, c') \<in> set (run f s Eps i c) \<Longrightarrow> j = i \<and> c' = c"
  by simp

lemma run_lits3:
  assumes "(j, c') \<in> set (run f s (Seq (Atom (Lit x)) (Seq (Atom (Lit y)) (Seq (Atom (Lit z)) Eps))) i c)"
    and "\<not> ignoreCase f"
  shows "drop i s = x # y # z # drop j s \<and> c' = c"
proof -
  from assms(1) obtain d1 c1 d2 c2 d3 c3 where
    a1: "(d1, c1) \<in> set (run f s (Atom (Lit x)) i c)"
    and a2: "(d2, c2) \<in> set (run f s (Atom (Lit y)) d1 c1)"
    and a3: "(d3, c3) \<in> set (run f s (Atom (Lit z)) d2 c2)"
    and e: "(j, c') \<in> set (run f s Eps d3 c3)"
    unfolding run_Seq_iff by blast
  from run_Atom_segment [OF a1 assms(2)] run_Atom_segment [OF a2 assms(2)]
    run_Atom_segment [OF a3 assms(2)] run_Eps_D [OF e]
  show ?thesis by simp
qed

lemma separator_match:
  assumes "exec_at SEPARATOR s q = Some m"
  shows "\<exists>w1 w2 rest.
           drop q s = w1 @ js ''---'' @ w2 @ rest \<and>
           (\<forall>x \<in> set w1. isWhiteSpace x) \<and> (\<forall>x \<in> set w2. isWhiteSpace x) \<and>
           (q = 0 \<or> (q \<le> length s \<and> isLineTerminator (s ! (q - 1)))) \<and>
           (rest = [] \<or> isLineTerminator (hd rest))"
proof -
  let ?c = "[] :: captures"
  let ?dashes = "Seq (Atom (Lit 45)) (Seq (Atom (Lit 45)) (Seq (Atom (Lit 45)) Eps))"
  have shape: "re SEPARATOR =
      Seq Bol (Seq (Rep WS 0 None True) (Seq ?dashes (Seq (Rep WS 0 None True) (Seq Eol Eps))))"
    by (simp add: SEPARATOR_def cat_def lits_def)
  from assms obtain e ce where "(e, ce) \<in> set (run gm s (re SEPARATOR) q ?c)"
    by (auto simp: exec_at_def SEPARATOR_def simp del: run.simps split: list.splits)
  then obtain k1 c1 a ca d3 c3 b cb k5 c5 where
    bol: "(k1, c1) \<in> set (run gm s Bol q ?c)"
    and r1: "(a, ca) \<in> set (run gm s (Rep WS 0 None True) k1 c1)"
    and ds: "(d3, c3) \<in> set (run gm s ?dashes a ca)"
    and r2: "(b, cb) \<in> set (run gm s (Rep WS 0 None True) d3 c3)"
    and eol: "(k5, c5) \<in> set (run gm s Eol b cb)"
    unfolding shape run_Seq_iff by blast
  have nic: "\<not> ignoreCase gm" by (simp add: gm_def)
  from run_Bol_D [OF bol] have k1: "k1 = q"
    and start: "q = 0 \<or> (q \<le> length s \<and> isLineTerminator (s ! (q - 1)))"
    by auto
  from run_Rep_segment [OF r1] k1 obtain w1 where
    w1: "drop q s = w1 @ drop a s" "\<forall>x \<in> set w1. isWhiteSpace x"
    by auto
  from run_lits3 [OF ds nic] have dashes: "drop a s = 45 # 45 # 45 # drop d3 s" by simp
  from run_Rep_segment [OF r2] obtain w2 where
    w2: "drop d3 s = w2 @ drop b s" "\<forall>x \<in> set w2. isWhiteSpace x"
    by auto
  from run_Eol_D [OF eol] have "b = length s \<or> (b < length s \<and> isLineTerminator (s ! b))"
    by auto
  then have rest: "drop b s = [] \<or> isLineTerminator (hd (drop b s))"
    by (auto simp: hd_drop_conv_nth)
  have "drop q s = w1 @ js ''---'' @ w2 @ drop b s"
    using w1(1) dashes w2(1) by (simp add: js_def)
  with w1(2) w2(2) start rest show ?thesis by blast
qed

lemma not_terminator_dash: "\<not> isLineTerminator 45" "\<not> isWhiteSpace 45"
  by (simp_all add: isLineTerminator_def isWhiteSpace_def)

lemma last_take: "0 < q \<Longrightarrow> q \<le> length s \<Longrightarrow> last (take q s) = s ! (q - 1)"
  by (cases s) (simp_all add: last_conv_nth min_absorb2)

lemma separator_line_of_match:
  assumes "exec_at SEPARATOR s q = Some m"
  shows "\<exists>l \<in> set (lines_of s). trim l = js ''---''"
proof -
  from separator_match [OF assms] obtain w1 w2 rest where
    d: "drop q s = w1 @ js ''---'' @ w2 @ rest"
    and ws1: "\<forall>x \<in> set w1. isWhiteSpace x" and ws2: "\<forall>x \<in> set w2. isWhiteSpace x"
    and start: "q = 0 \<or> (q \<le> length s \<and> isLineTerminator (s ! (q - 1)))"
    and rest: "rest = [] \<or> isLineTerminator (hd rest)"
    by blast
  let ?N = "\<lambda>c. \<not> isLineTerminator c"
  define w1a where "w1a = rev (dropWhile ?N (rev w1))"
  define w1b where "w1b = rev (takeWhile ?N (rev w1))"
  define w2a where "w2a = takeWhile ?N w2"
  define w2b where "w2b = dropWhile ?N w2"
  have w1: "w1 = w1a @ w1b"
    unfolding w1a_def w1b_def by (metis rev_append rev_rev_ident takeWhile_dropWhile_id)
  have w2: "w2 = w2a @ w2b" unfolding w2a_def w2b_def by simp
  define u where "u = take q s @ w1a"
  define l where "l = w1b @ js ''---'' @ w2a"
  define v where "v = w2b @ rest"
  have s: "s = u @ l @ v"
  proof -
    have "s = take q s @ drop q s" by simp
    then show ?thesis unfolding d u_def l_def v_def w1 w2 by simp
  qed
  have lastw1a: "w1a = [] \<or> isLineTerminator (last w1a)"
  proof (cases "w1a = []")
    case False
    then have ne: "dropWhile ?N (rev w1) \<noteq> []" by (simp add: w1a_def)
    then have "\<not> ?N (hd (dropWhile ?N (rev w1)))" by (rule hd_dropWhile)
    with ne show ?thesis by (simp add: w1a_def last_rev)
  qed simp
  have u: "u = [] \<or> isLineTerminator (last u)"
  proof (cases "w1a = []")
    case True
    show ?thesis
    proof (cases "q = 0")
      case q0: True
      with True show ?thesis by (simp add: u_def)
    next
      case False
      with start have "q \<le> length s" "isLineTerminator (s ! (q - 1))" by auto
      with False True show ?thesis by (simp add: u_def last_take)
    qed
  next
    case False
    with lastw1a show ?thesis by (simp add: u_def)
  qed
  have v: "v = [] \<or> isLineTerminator (hd v)"
  proof (cases "w2b = []")
    case True
    with rest show ?thesis by (simp add: v_def)
  next
    case False
    then have "\<not> ?N (hd w2b)" unfolding w2b_def by (rule hd_dropWhile)
    with False show ?thesis by (simp add: v_def)
  qed
  have free: "\<forall>c \<in> set l. \<not> isLineTerminator c"
    unfolding l_def w1b_def w2a_def
    by (auto simp: js_def not_terminator_dash dest: set_takeWhileD)
  have in_lines: "l \<in> set (lines_of s)"
    using s u v free by (rule line_of_decomposition)
  have "\<forall>x \<in> set w1b. isWhiteSpace x" "\<forall>x \<in> set w2a. isWhiteSpace x"
    using ws1 ws2 unfolding w1 w2 by auto
  then have "trim l = js ''---''"
    unfolding l_def by (intro trim_padded) (simp_all add: js_def not_terminator_dash)
  with in_lines show ?thesis by blast
qed

lemma split_loop_no_match:
  assumes "\<And>q. exec_at pt s q = None"
  shows "split_loop pt s p q = [slice s p (length s)]"
proof (induction "length s - q" arbitrary: q)
  case 0
  then show ?case by (subst split_loop.simps) simp
next
  case (Suc n)
  then have "q < length s" "n = length s - Suc q" by auto
  with Suc(1) [of "Suc q"] assms show ?case by (subst split_loop.simps) simp
qed

lemma split_without_separator:
  assumes "\<forall>l \<in> set (lines_of d). trim l \<noteq> js ''---''"
  shows "split_re SEPARATOR d = [d]"
proof -
  have none: "exec_at SEPARATOR d q = None" for q
  proof (cases "exec_at SEPARATOR d q")
    case (Some m)
    from separator_line_of_match [OF this] assms show ?thesis by blast
  qed simp
  show ?thesis
  proof (cases "d = []")
    case True
    with none [of 0] show ?thesis by (simp add: split_re_def)
  next
    case False
    with split_loop_no_match [of SEPARATOR d 0 0] none show ?thesis
      by (simp add: split_re_def slice_def)
  qed
qed

text \<open>
  Claim C7. A document none of whose lines consists of three hyphens within optional white
  space compiles to the one slide made from the whole text (or to the exception of that
  slide's rendering): a returned slide list has exactly one slide. The document
  \<^verbatim>\<open># A\<close>, \<^verbatim>\<open>---\<close>, \<^verbatim>\<open># B\<close>, \<^verbatim>\<open>---\<close>, \<^verbatim>\<open># C\<close> (one per line) compiles to three slides with the
  titles A, B, C and the ids 0, 1, 2, whenever \<^verbatim>\<open>marked\<close> returns for the three bodies.
\<close>

theorem separator_lines_make_the_slides:
  "((\<forall>l \<in> set (lines_of d). trim l \<noteq> js ''---'') \<longrightarrow>
      parseSlides rt d = (case parseSlide rt d 0 of Inl e \<Rightarrow> Inl e | Inr s \<Rightarrow> Inr [s]) \<and>
      (\<forall>compiled. parseSlides rt d = Inr compiled \<longrightarrow> length compiled = 1)) \<and>
   (markdownToHtml rt (js ''# A'') = Inr hA \<and> markdownToHtml rt (js ''# B'') = Inr hB \<and>
    markdownToHtml rt (js ''# C'') = Inr hC \<longrightarrow>
      parseSlides rt (js ''# A'' @ [LF] @ js ''---'' @ [LF] @ js ''# B'' @ [LF] @ js ''---'' @ [LF] @ js ''# C'') =
        Inr [\<lparr>slide_id = 0, slide_title = js ''A'', slide_markdown = js ''# A'', slide_html = hA,
               slide_notes = NO_NOTES\<rparr>,
             \<lparr>slide_id = 1, slide_title = js ''B'', slide_markdown = js ''# B'', slide_html = hB,
               slide_notes = NO_NOTES\<rparr>,
             \<lparr>slide_id = 2, slide_title = js ''C'', slide_markdown = js ''# C'', slide_html = hC,
               slide_notes = NO_NOTES\<rparr>])"
proof -
  have one: "parseSlides rt d = (case parseSlide rt d 0 of Inl e \<Rightarrow> Inl e | Inr s \<Rightarrow> Inr [s]) \<and>
      (\<forall>compiled. parseSlides rt d = Inr compiled \<longrightarrow> length compiled = 1)"
    if "\<forall>l \<in> set (lines_of d). trim l \<noteq> js ''---''"
  proof -
    from that have "split_re SEPARATOR d = [d]" by (rule split_without_separator)
    then show ?thesis
      by (auto simp: parseSlides_def split: sum.splits)
  qed
  have three: "parseSlides rt (js ''# A'' @ [LF] @ js ''---'' @ [LF] @ js ''# B'' @ [LF] @ js ''---'' @ [LF] @ js ''# C'') =
        Inr [\<lparr>slide_id = 0, slide_title = js ''A'', slide_markdown = js ''# A'', slide_html = hA,
               slide_notes = NO_NOTES\<rparr>,
             \<lparr>slide_id = 1, slide_title = js ''B'', slide_markdown = js ''# B'', slide_html = hB,
               slide_notes = NO_NOTES\<rparr>,
             \<lparr>slide_id = 2, slide_title = js ''C'', slide_markdown = js ''# C'', slide_html = hC,
               slide_notes = NO_NOTES\<rparr>]"
    if "markdownToHtml rt (js ''# A'') = Inr hA \<and> markdownToHtml rt (js ''# B'') = Inr hB \<and>
        markdownToHtml rt (js ''# C'') = Inr hC"
    using that compile_deck_ABC [of rt hA hB hC] by (simp add: deck_ABC_def)
  from one three show ?thesis by blast
qed

theorem separator_lines_make_the_slides_witness:
  "list_all (\<lambda>l. trim l \<noteq> js ''---'') (lines_of (js ''# A'')) \<and>
   parseSlides plain_runtime (js ''# A'') =
     Inr [\<lparr>slide_id = 0, slide_title = js ''A'', slide_markdown = js ''# A'', slide_html = js ''# A'',
           slide_notes = NO_NOTES\<rparr>] \<and>
   markdownToHtml plain_runtime (js ''# B'') = Inr (js ''# B'') \<and>
   (\<exists>a b c. parseSlides plain_runtime
       (js ''# A'' @ [LF] @ js ''---'' @ [LF] @ js ''# B'' @ [LF] @ js ''---'' @ [LF] @ js ''# C'') = Inr [a, b, c] \<and>
      slide_title b = js ''B'' \<and> slide_id c = 2)"
proof -
  have lines: "lines_of (js ''# A'') = [js ''# A'']"
    by (simp add: js_def isLineTerminator_def)
  have no: "\<forall>l \<in> set (lines_of (js ''# A'')). trim l \<noteq> js ''---''"
    unfolding lines by (simp add: trim_def js_def isWhiteSpace_def)
  note inst = separator_lines_make_the_slides [where rt = plain_runtime]
  from inst [where d = "js ''# A''", THEN conjunct1] no
  have "parseSlides plain_runtime (js ''# A'') =
      (case parseSlide plain_runtime (js ''# A'') 0 of Inl e \<Rightarrow> Inl e | Inr s \<Rightarrow> Inr [s])"
    by blast
  then have single: "parseSlides plain_runtime (js ''# A'') =
     Inr [\<lparr>slide_id = 0, slide_title = js ''A'', slide_markdown = js ''# A'', slide_html = js ''# A'',
           slide_notes = NO_NOTES\<rparr>]"
    by (simp add: compile_A)
  from inst [where hA = "js ''# A''" and hB = "js ''# B''" and hC = "js ''# C''", THEN conjunct2]
  have "\<exists>a b c. parseSlides plain_runtime
       (js ''# A'' @ [LF] @ js ''---'' @ [LF] @ js ''# B'' @ [LF] @ js ''---'' @ [LF] @ js ''# C'') = Inr [a, b, c] \<and>
      slide_title b = js ''B'' \<and> slide_id c = 2"
    by (simp add: plain_markdownToHtml)
  with no single show ?thesis by (simp add: list_all_iff plain_markdownToHtml)
qed

section \<open>Speaker notes\<close>

text \<open>
  The notes a pattern finds in a text, in the order of its matches (trimmed, the empty ones
  dropped), and the text with the matches of a pattern removed.
\<close>

definition found_notes :: "pattern \<Rightarrow> jsstring \<Rightarrow> jsstring list" where
  "found_notes p s =
     filter (\<lambda>n. n \<noteq> []) (map (\<lambda>(b, e, c). trim (capture s c 0)) (match_all p s 0))"

definition without :: "pattern \<Rightarrow> jsstring \<Rightarrow> jsstring" where
  "without p s = fst (replace_all p s (\<lambda>_ _ (u :: unit). ([], u)) ())"

lemma replace_build_collect:
  assumes cb: "\<And>m g st. cb m g st = ([], st @ (if trim (g 0) \<noteq> [] then [trim (g 0)] else []))"
  shows "replace_build s cb ms pos st =
     (fst (replace_build s (\<lambda>_ _ (u :: unit). ([], u)) ms pos ()),
      st @ filter (\<lambda>n. n \<noteq> []) (map (\<lambda>(b, e, c). trim (capture s c 0)) ms))"
proof (induction ms arbitrary: pos st)
  case Nil
  then show ?case by simp
next
  case (Cons m ms)
  obtain b e c where m: "m = (b, e, c)" by (cases m)
  have step: "cb (slice s b e) (capture s c) st =
      ([], st @ (if trim (capture s c 0) \<noteq> [] then [trim (capture s c 0)] else []))"
    by (rule cb)
  show ?case
    unfolding m by (simp add: step Let_def Cons.IH case_prod_beta)
qed

lemma replace_build_notes:
  "replace_build s (\<lambda>_ g. note_callback (g 0)) ms pos st =
     (fst (replace_build s (\<lambda>_ _ (u :: unit). ([], u)) ms pos ()),
      st @ filter (\<lambda>n. n \<noteq> []) (map (\<lambda>(b, e, c). trim (capture s c 0)) ms))"
  by (rule replace_build_collect) (simp add: note_callback_def Let_def)

lemma replace_all_notes:
  "replace_all p s (\<lambda>_ g. note_callback (g 0)) st = (without p s, st @ found_notes p s)"
  by (simp add: replace_all_def without_def found_notes_def replace_build_notes)

lemma collect_notes_eq:
  "collect_notes raw =
     (without NOTE_LINE (without NOTES_BLOCK raw),
      found_notes NOTES_BLOCK raw @ found_notes NOTE_LINE (without NOTES_BLOCK raw))"
  by (simp add: collect_notes_def replace_all_notes)

lemma last_dropWhile: "dropWhile P xs \<noteq> [] \<Longrightarrow> last (dropWhile P xs) = last xs"
  by (induction xs) (auto split: if_splits)

definition trimmed :: "jsstring \<Rightarrow> bool" where
  "trimmed n \<longleftrightarrow> n \<noteq> [] \<and> \<not> isWhiteSpace (hd n) \<and> \<not> isWhiteSpace (last n)"

lemma trim_trimmed: "trim n \<noteq> [] \<Longrightarrow> trimmed (trim n)"
proof -
  assume ne: "trim n \<noteq> []"
  let ?y = "dropWhile isWhiteSpace n"
  let ?z = "dropWhile isWhiteSpace (rev ?y)"
  from ne have z: "?z \<noteq> []" by (simp add: trim_def)
  have y: "?y \<noteq> []"
  proof
    assume "?y = []"
    with z show False by simp
  qed
  from z have "\<not> isWhiteSpace (hd ?z)" by (rule hd_dropWhile)
  then have l: "\<not> isWhiteSpace (last (trim n))" by (simp add: trim_def last_rev)
  from z have "last ?z = last (rev ?y)" by (rule last_dropWhile)
  then have "hd (trim n) = hd ?y" using z by (simp add: trim_def hd_rev last_rev)
  moreover from y have "\<not> isWhiteSpace (hd ?y)" by (rule hd_dropWhile)
  ultimately show ?thesis using ne l by (simp add: trimmed_def)
qed

lemma trim_of_trimmed: "trimmed n \<Longrightarrow> trim n = n"
  using trim_padded [of "[]" "[]" n] by (simp add: trimmed_def)

lemma join_trimmed:
  "ns \<noteq> [] \<Longrightarrow> \<forall>n \<in> set ns. trimmed n \<Longrightarrow> trimmed (join sep ns)"
proof (induction sep ns rule: join.induct)
  case (3 sep x y ys)
  then have "trimmed (join sep (y # ys))" "trimmed x" by simp_all
  then show ?case by (auto simp: trimmed_def)
qed simp_all

lemma found_notes_trimmed: "\<forall>n \<in> set (found_notes p s). trimmed n"
  by (auto simp: found_notes_def intro: trim_trimmed)

lemma NO_NOTES_nonempty: "NO_NOTES \<noteq> []"
  by (simp add: NO_NOTES_def js_def)

lemma match_all_increasing:
  "(\<forall>m \<in> set (match_all p s i). i \<le> fst m) \<and> sorted_wrt (<) (map fst (match_all p s i))"
proof (induction p s i rule: match_all.induct)
  case (1 p s i)
  show ?case
  proof (cases "length s < i")
    case True
    then show ?thesis by (subst (1 2) match_all.simps) simp
  next
    case False
    show ?thesis
    proof (cases "exec_from p s i")
      case None
      with False show ?thesis by (subst (1 2) match_all.simps) simp
    next
      case (Some m)
      obtain b e c where m: "m = (b, e, c)" by (cases m)
      define i' where "i' = (if e = b then Suc e else e)"
      from exec_from_bounds [OF Some [unfolded m]] have bounds: "i \<le> b" "b \<le> e" by auto
      then have lt: "b < i'" by (auto simp: i'_def)
      from "1.IH" [OF False Some [unfolded m] refl refl]
      have ih: "(\<forall>m \<in> set (match_all p s i'). i' \<le> fst m) \<and>
                sorted_wrt (<) (map fst (match_all p s i'))"
        by (simp add: i'_def)
      have eq: "match_all p s i = (b, e, c) # match_all p s i'"
        using False Some m by (subst match_all.simps) (simp add: i'_def)
      from ih lt bounds show ?thesis unfolding eq by fastforce
    qed
  qed
qed

text \<open>
  Claim C5 (as amended). The notes of a slide are the block notes in source order followed by
  the line notes in source order (the line notes being looked for in the text that remains
  once the blocks are removed), each trimmed, the empty ones dropped, joined by one blank
  line. When there is none the notes are the placeholder. The notes are never empty. Source
  order: the matches behind each of the two lists start at strictly increasing offsets.
\<close>

theorem notes_are_block_notes_then_line_notes:
  assumes "parseSlide rt raw index = Inr sl"
  shows "slide_notes sl =
           (if found_notes NOTES_BLOCK raw @ found_notes NOTE_LINE (without NOTES_BLOCK raw) = []
            then NO_NOTES
            else join [LF, LF]
                   (found_notes NOTES_BLOCK raw @ found_notes NOTE_LINE (without NOTES_BLOCK raw))) \<and>
         slide_notes sl \<noteq> [] \<and>
         sorted_wrt (<) (map fst (match_all NOTES_BLOCK raw 0)) \<and>
         sorted_wrt (<) (map fst (match_all NOTE_LINE (without NOTES_BLOCK raw) 0))"
proof -
  define ns where "ns = found_notes NOTES_BLOCK raw @ found_notes NOTE_LINE (without NOTES_BLOCK raw)"
  from assms have nts: "slide_notes sl =
      (if trim (join [LF, LF] ns) \<noteq> [] then trim (join [LF, LF] ns) else NO_NOTES)"
    by (auto simp: parseSlide_collect collect_notes_eq Let_def ns_def split: sum.splits)
  have "slide_notes sl = (if ns = [] then NO_NOTES else join [LF, LF] ns) \<and> slide_notes sl \<noteq> []"
  proof (cases "ns = []")
    case True
    with nts show ?thesis by (simp add: trim_def NO_NOTES_nonempty)
  next
    case False
    have "\<forall>n \<in> set ns. trimmed n" using found_notes_trimmed by (auto simp: ns_def)
    with False have t: "trimmed (join [LF, LF] ns)" by (rule join_trimmed)
    then have "trim (join [LF, LF] ns) = join [LF, LF] ns" by (rule trim_of_trimmed)
    moreover from t have "join [LF, LF] ns \<noteq> []" by (simp add: trimmed_def)
    ultimately show ?thesis using nts False by simp
  qed
  then show ?thesis
    unfolding ns_def using match_all_increasing by blast
qed

text \<open>A slide body for examples: a line note written before a block note.\<close>

definition notes_example :: jsstring where
  "notes_example = js ''Note: a'' @ [LF] @ js ''::: notes'' @ [LF] @ js ''b'' @ [LF] @ js '':::''"

lemma notes_example_collected: "collect_notes notes_example = ([LF], [js ''b'', js ''a''])"
  by (simp add: notes_example_def collect_notes_def run_eval)

lemma notes_example_slide:
  "parseSlide plain_runtime notes_example 0 =
     Inr \<lparr>slide_id = 0, slide_title = js ''Slide 1'', slide_markdown = EMPTY_SLIDE,
          slide_html = EMPTY_SLIDE, slide_notes = js ''b'' @ [LF, LF] @ js ''a''\<rparr>"
proof -
  have t: "extractTitle EMPTY_SLIDE 0 = js ''Slide 1''"
    by (simp add: extractTitle_def EMPTY_SLIDE_def pattern_eval digits.simps)
  show ?thesis
    by (simp add: parseSlide_collect notes_example_collected plain_markdownToHtml t Let_def)
       (simp add: trim_def isWhiteSpace_def LF_def js_def)
qed

text \<open>
  Claim C5 as stated fails: the notes are not in source order across the two syntaxes. In
  the body below the line note \<^verbatim>\<open>Note: a\<close> starts at offset 0 and the block note at offset 8,
  and the notes of the slide are \<^verbatim>\<open>b\<close>, a blank line, \<^verbatim>\<open>a\<close>.
\<close>

theorem line_note_before_block_comes_second:
  "map_sum id slide_notes
     (parseSlide plain_runtime
        (js ''Note: a'' @ [LF] @ js ''::: notes'' @ [LF] @ js ''b'' @ [LF] @ js '':::'') 0) =
     Inr (js ''b'' @ [LF, LF] @ js ''a'') \<and>
   map_option fst
     (exec_from NOTE_LINE (js ''Note: a'' @ [LF] @ js ''::: notes'' @ [LF] @ js ''b'' @ [LF] @ js '':::'') 0) =
     Some 0 \<and>
   map_option fst
     (exec_from NOTES_BLOCK (js ''Note: a'' @ [LF] @ js ''::: notes'' @ [LF] @ js ''b'' @ [LF] @ js '':::'') 0) =
     Some 8"
proof -
  have "map_sum id slide_notes (parseSlide plain_runtime notes_example 0) =
      Inr (js ''b'' @ [LF, LF] @ js ''a'')"
    by (simp add: notes_example_slide)
  moreover have "map_option fst (exec_from NOTE_LINE notes_example 0) = Some 0"
    by (simp add: notes_example_def pattern_eval)
  moreover have "map_option fst (exec_from NOTES_BLOCK notes_example 0) = Some 8"
    by (simp add: notes_example_def pattern_eval)
  ultimately show ?thesis unfolding notes_example_def by simp
qed

theorem notes_are_block_notes_then_line_notes_witness:
  "parseSlide plain_runtime notes_example 0 =
     Inr \<lparr>slide_id = 0, slide_title = js ''Slide 1'', slide_markdown = EMPTY_SLIDE,
          slide_html = EMPTY_SLIDE, slide_notes = js ''b'' @ [LF, LF] @ js ''a''\<rparr> \<and>
   found_notes NOTES_BLOCK notes_example = [js ''b''] \<and>
   found_notes NOTE_LINE (without NOTES_BLOCK notes_example) = [js ''a''] \<and>
   join [LF, LF] (found_notes NOTES_BLOCK notes_example @
                  found_notes NOTE_LINE (without NOTES_BLOCK notes_example)) =
     js ''b'' @ [LF, LF] @ js ''a''"
proof -
  have b: "found_notes NOTES_BLOCK notes_example = [js ''b'']"
    by (simp add: found_notes_def notes_example_def run_eval)
  have w: "without NOTES_BLOCK notes_example = js ''Note: a'' @ [LF]"
    by (simp add: without_def notes_example_def run_eval)
  have l: "found_notes NOTE_LINE (js ''Note: a'' @ [LF]) = [js ''a'']"
    by (simp add: found_notes_def run_eval)
  from notes_are_block_notes_then_line_notes [OF notes_example_slide]
  have "join [LF, LF] (found_notes NOTES_BLOCK notes_example @
                  found_notes NOTE_LINE (without NOTES_BLOCK notes_example)) =
     js ''b'' @ [LF, LF] @ js ''a''"
    by (simp add: b w l)
  with b w l notes_example_slide show ?thesis by simp
qed

section \<open>The deep link\<close>

text \<open>
  The fragment that the hash-writing effect produces is read back by \<open>readHashState\<close> as
  the state it was written from. The effect starts from the parameters of the fragment
  that is already there, so the statement is about every earlier fragment: whatever
  parameters it holds, they stand neither before nor in place of the three that are
  written. The proof follows the path of a value: a string is turned into bytes,
  the bytes are escaped and joined, the result is split at the separators, unescaped and
  decoded.
\<close>

subsection \<open>Decoding bytes\<close>

definition ascii :: "jsstring \<Rightarrow> bool" where
  "ascii s \<longleftrightarrow> list_all (\<lambda>c. c < 128) s"

lemma utf16_code_units: "cp \<le> 1114111 \<Longrightarrow> code_units (utf16 cp)"
  by (auto simp: utf16_def code_units_def)

text \<open>
  Bounds on the state of the decoder that hold from its initial state on: the code point
  that a sequence ends in is neither below \<open>128\<close> nor above \<open>1114111\<close>.
\<close>

definition decoder_state :: "nat \<Rightarrow> nat \<Rightarrow> nat \<Rightarrow> nat \<Rightarrow> bool" where
  "decoder_state cp needed lo hi \<longleftrightarrow>
     needed \<le> 3 \<and> (needed \<noteq> 0 \<longrightarrow> 128 \<le> lo \<and> hi \<le> 191) \<and>
     (needed = 1 \<longrightarrow> 2 \<le> cp \<and> cp \<le> 17407) \<and>
     (needed = 2 \<longrightarrow> 32 \<le> cp * 64 + (lo - 128) \<and> cp \<le> 271) \<and>
     (needed = 3 \<longrightarrow> 16 \<le> cp * 64 + (lo - 128) \<and> cp * 64 + (hi - 128) \<le> 271)"

lemma decoder_state_init: "decoder_state 0 0 128 191"
  by (simp add: decoder_state_def)

lemma decode_lossy_code_units:
  "decoder_state cp needed lo hi \<Longrightarrow> code_units (utf8_decode_lossy cp needed lo hi bs)"
proof (induction cp needed lo hi bs rule: utf8_decode_lossy.induct)
  case (1 cp needed lo hi)
  then show ?case by (simp add: code_units_def)
next
  case (2 cp lo hi b bs)
  have i: "decoder_state 0 0 128 191" by (rule decoder_state_init)
  show ?case
  proof (cases "b < 128")
    case True
    with 2(1) [OF True i] show ?thesis by (simp add: code_units_def)
  next
    case nb: False
    show ?thesis
    proof (cases "194 \<le> b \<and> b \<le> 223")
      case True
      then have "decoder_state (b - 192) 1 128 191" by (auto simp: decoder_state_def)
      with 2(2) [OF nb True] nb True show ?thesis by simp
    next
      case n2: False
      show ?thesis
      proof (cases "224 \<le> b \<and> b \<le> 239")
        case True
        then have "decoder_state (b - 224) 2 (if b = 224 then 160 else 128) (if b = 237 then 159 else 191)"
          by (auto simp: decoder_state_def)
        with 2(3) [OF nb n2 True] nb n2 True show ?thesis by simp
      next
        case n3: False
        show ?thesis
        proof (cases "240 \<le> b \<and> b \<le> 244")
          case True
          then have "decoder_state (b - 240) 3 (if b = 240 then 144 else 128) (if b = 244 then 143 else 191)"
            by (auto simp: decoder_state_def)
          with 2(4) [OF nb n2 n3 True] nb n2 n3 True show ?thesis by simp
        next
          case False
          with 2(5) [OF nb n2 n3 False i] nb n2 n3 show ?thesis by (auto simp: code_units_def)
        qed
      qed
    qed
  qed
next
  case (3 cp n lo hi b bs)
  have i: "decoder_state 0 0 128 191" by (rule decoder_state_init)
  show ?case
  proof (cases "b < lo \<or> hi < b")
    case True
    with 3(1) [OF True i] show ?thesis by (simp add: code_units_def)
  next
    case inr: False
    show ?thesis
    proof (cases "n = 0")
      case True
      with "3.prems" inr have "cp * 64 + (b - 128) \<le> 1114111"
        by (auto simp: decoder_state_def)
      then have "code_units (utf16 (cp * 64 + (b - 128)))" by (rule utf16_code_units)
      with 3(2) [OF inr True i] inr True show ?thesis by (simp add: code_units_def)
    next
      case False
      with "3.prems" inr have "decoder_state (cp * 64 + (b - 128)) n 128 191"
        by (auto simp: decoder_state_def)
      with 3(3) [OF inr False] inr False show ?thesis by simp
    qed
  qed
qed

lemma utf8_to_string_code_units: "code_units (utf8_to_string bs)"
  unfolding utf8_to_string_def using decoder_state_init by (rule decode_lossy_code_units)

lemma decode_lossy_ascii: "\<forall>b \<in> set bs. b < 128 \<Longrightarrow> utf8_decode_lossy 0 0 128 191 bs = bs"
  by (induction bs) simp_all

lemma decode_lossy_not_ascii:
  "decoder_state cp needed lo hi \<Longrightarrow> needed \<noteq> 0 \<or> (\<exists>b \<in> set bs. 128 \<le> b) \<Longrightarrow>
   \<exists>c \<in> set (utf8_decode_lossy cp needed lo hi bs). 128 \<le> c"
proof (induction cp needed lo hi bs rule: utf8_decode_lossy.induct)
  case (1 cp needed lo hi)
  then show ?case by simp
next
  case (2 cp lo hi b bs)
  have i: "decoder_state 0 0 128 191" by (rule decoder_state_init)
  show ?case
  proof (cases "b < 128")
    case True
    with "2.prems" have "\<exists>b \<in> set bs. 128 \<le> b" by auto
    with 2(1) [OF True i] True show ?thesis by simp
  next
    case nb: False
    show ?thesis
    proof (cases "194 \<le> b \<and> b \<le> 223")
      case True
      then have "decoder_state (b - 192) 1 128 191" by (auto simp: decoder_state_def)
      with 2(2) [OF nb True] nb True show ?thesis by simp
    next
      case n2: False
      show ?thesis
      proof (cases "224 \<le> b \<and> b \<le> 239")
        case True
        then have "decoder_state (b - 224) 2 (if b = 224 then 160 else 128) (if b = 237 then 159 else 191)"
          by (auto simp: decoder_state_def)
        with 2(3) [OF nb n2 True] nb n2 True show ?thesis by simp
      next
        case n3: False
        show ?thesis
        proof (cases "240 \<le> b \<and> b \<le> 244")
          case True
          then have "decoder_state (b - 240) 3 (if b = 240 then 144 else 128) (if b = 244 then 143 else 191)"
            by (auto simp: decoder_state_def)
          with 2(4) [OF nb n2 n3 True] nb n2 n3 True show ?thesis by simp
        next
          case False
          with nb n2 n3 show ?thesis by auto
        qed
      qed
    qed
  qed
next
  case (3 cp n lo hi b bs)
  show ?case
  proof (cases "b < lo \<or> hi < b")
    case True
    then show ?thesis by simp
  next
    case inr: False
    show ?thesis
    proof (cases "n = 0")
      case True
      with "3.prems"(1) inr have "128 \<le> cp * 64 + (b - 128)"
        by (auto simp: decoder_state_def)
      then have "\<exists>c \<in> set (utf16 (cp * 64 + (b - 128))). 128 \<le> c"
        by (auto simp: utf16_def)
      with inr True show ?thesis by auto
    next
      case False
      with "3.prems"(1) inr have "decoder_state (cp * 64 + (b - 128)) n 128 191"
        by (auto simp: decoder_state_def)
      with 3(3) [OF inr False] False inr show ?thesis by simp
    qed
  qed
qed

subsection \<open>Escaping and unescaping a field\<close>

lemma utf8_byte: "cp \<le> 1114111 \<Longrightarrow> b \<in> set (utf8 cp) \<Longrightarrow> b < 256"
  using utf8_bytes_small by blast

lemma utf8_bytes_bytes: "code_units s \<Longrightarrow> b \<in> set (utf8_bytes s) \<Longrightarrow> b < 256"
proof (induction s rule: utf8_bytes.induct)
  case 1
  then show ?case by simp
next
  case (2 c)
  then show ?case
    by (auto simp: code_units_def split: if_splits dest: utf8_byte [rotated])
next
  case (3 c d ds)
  from "3.prems"(1) have cu: "c < 65536" "d < 65536" "code_units (d # ds)" "code_units ds"
    by (simp_all add: code_units_def)
  define pv where "pv = (c - 55296) * 1024 + (d - 56320) + 65536"
  have rep: "\<forall>b \<in> set (utf8 65533). b < 256" by (rule utf8_bytes_small) simp
  have single: "\<forall>b \<in> set (utf8 c). b < 256" using cu(1) by (intro utf8_bytes_small) simp
  show ?case
  proof (cases "isLeadSurrogate c")
    case lead: True
    show ?thesis
    proof (cases "isTrailSurrogate d")
      case True
      from lead have "c - 55296 \<le> 1023" unfolding isLeadSurrogate_def by linarith
      then have "(c - 55296) * 1024 \<le> 1023 * 1024" by (rule mult_le_mono1)
      moreover from True have "d - 56320 \<le> 1023" unfolding isTrailSurrogate_def by linarith
      ultimately have "pv \<le> 1114111" unfolding pv_def by linarith
      then have pair: "\<forall>b \<in> set (utf8 pv). b < 256" by (rule utf8_bytes_small)
      from "3.prems"(2) lead True have "b \<in> set (utf8 pv) \<or> b \<in> set (utf8_bytes ds)"
        unfolding pv_def by simp
      with pair "3.IH"(1) [OF lead True cu(4)] show ?thesis by blast
    next
      case False
      with "3.prems"(2) lead have "b \<in> set (utf8 65533) \<or> b \<in> set (utf8_bytes (d # ds))"
        by simp
      with rep "3.IH"(2) [OF lead False cu(3)] show ?thesis by blast
    qed
  next
    case nl: False
    show ?thesis
    proof (cases "isTrailSurrogate c")
      case True
      with "3.prems"(2) nl have "b \<in> set (utf8 65533) \<or> b \<in> set (utf8_bytes (d # ds))"
        by simp
      with rep "3.IH"(3) [OF nl True cu(3)] show ?thesis by blast
    next
      case False
      with "3.prems"(2) nl have "b \<in> set (utf8 c) \<or> b \<in> set (utf8_bytes (d # ds))"
        by simp
      with single "3.IH"(4) [OF nl False cu(3)] show ?thesis by blast
    qed
  qed
qed

lemma utf8_bytes_ascii: "ascii s \<Longrightarrow> utf8_bytes s = s"
  by (induction s rule: utf8_bytes.induct)
     (simp_all add: ascii_def utf8_def isLeadSurrogate_def isTrailSurrogate_def)

lemma utf8_high: "128 \<le> cp \<Longrightarrow> \<exists>b \<in> set (utf8 cp). 128 \<le> b"
  by (simp add: utf8_def)

lemma utf8_bytes_not_ascii: "\<not> ascii s \<Longrightarrow> \<exists>b \<in> set (utf8_bytes s). 128 \<le> b"
proof (induction s rule: utf8_bytes.induct)
  case 1
  then show ?case by (simp add: ascii_def)
next
  case (2 c)
  then have "128 \<le> c" by (simp add: ascii_def)
  then show ?case using utf8_high [of c] utf8_high [of 65533] by simp
next
  case (3 c d ds)
  have h: "\<exists>b \<in> set (utf8 65533). 128 \<le> b" by (rule utf8_high) simp
  have p: "\<exists>b \<in> set (utf8 ((c - 55296) * 1024 + (d - 56320) + 65536)). 128 \<le> b"
    by (rule utf8_high) simp
  show ?case
  proof (cases "isLeadSurrogate c \<or> isTrailSurrogate c")
    case True
    with h p show ?thesis by auto
  next
    case False
    show ?thesis
    proof (cases "c < 128")
      case True
      with "3.prems" have "\<not> ascii (d # ds)" by (simp add: ascii_def)
      with "3.IH"(4) False have "\<exists>b \<in> set (utf8_bytes (d # ds)). 128 \<le> b" by blast
      with False show ?thesis by auto
    next
      case nc: False
      then have "\<exists>b \<in> set (utf8 c). 128 \<le> b" by (intro utf8_high) simp
      with False show ?thesis by auto
    qed
  qed
qed

lemma percent_decode_plain:
  assumes "p \<noteq> 37"
  shows "percent_decode (p # bs) = p # percent_decode bs"
proof (cases bs)
  case Nil
  then show ?thesis by simp
next
  case (Cons h t)
  with assms show ?thesis by (cases t) simp_all
qed

lemma percent_decode_pct: "b < 256 \<Longrightarrow> percent_decode (pct b @ rest) = b # percent_decode rest"
proof -
  assume "b < 256"
  then have "b div 16 < 16" "b mod 16 < 16" by simp_all
  then show ?thesis by (simp add: pct_def unhex_hexDigit)
qed

lemma pct_no_plus: "map (\<lambda>b. if b = 43 then 32 else b) (pct b) = pct b"
  by (simp add: pct_def hexDigit_def)

lemma percent_decode_urlencoded_byte:
  assumes "b < 256"
  shows "percent_decode (map (\<lambda>b. if b = 43 then 32 else b) (urlencoded_byte b @ rest)) =
         b # percent_decode (map (\<lambda>b. if b = 43 then 32 else b) rest)"
proof (cases "urlencoded_byte b = pct b")
  case True
  with assms show ?thesis by (simp add: pct_no_plus percent_decode_pct)
next
  case False
  then have "(b = 32 \<and> urlencoded_byte b = [43]) \<or> (b \<noteq> 43 \<and> b \<noteq> 37 \<and> urlencoded_byte b = [b])"
    by (auto simp: urlencoded_byte_def split: if_splits)
  then show ?thesis by (auto simp: percent_decode_plain)
qed

lemma percent_decode_urlencoded:
  "\<forall>b \<in> set bs. b < 256 \<Longrightarrow>
   percent_decode (map (\<lambda>b. if b = 43 then 32 else b) (concat (map urlencoded_byte bs))) = bs"
proof (induction bs)
  case Nil
  then show ?case by simp
next
  case (Cons b bs)
  then have "b < 256" and rest: "percent_decode (map (\<lambda>b. if b = 43 then 32 else b) (concat (map urlencoded_byte bs))) = bs"
    by simp_all
  from percent_decode_urlencoded_byte [OF this(1), of "concat (map urlencoded_byte bs)"] rest
  show ?case by simp
qed

lemma field_urlencode: "code_units s \<Longrightarrow> urlencoded_field (urlencode s) = utf8_to_string (utf8_bytes s)"
  unfolding urlencoded_field_def urlencode_def
  using percent_decode_urlencoded [of "utf8_bytes s"] utf8_bytes_bytes [of s] by simp

lemma ascii_code_units: "ascii s \<Longrightarrow> code_units s"
  unfolding ascii_def code_units_def list_all_iff by auto

lemma field_urlencode_ascii: "ascii s \<Longrightarrow> urlencoded_field (urlencode s) = s"
proof -
  assume a: "ascii s"
  then have "\<forall>b \<in> set s. b < 128" by (simp add: ascii_def list_all_iff)
  then have "utf8_to_string s = s" unfolding utf8_to_string_def by (rule decode_lossy_ascii)
  with a show ?thesis by (simp add: field_urlencode ascii_code_units utf8_bytes_ascii)
qed

lemma field_urlencode_not_ascii:
  assumes "code_units s" "\<not> ascii s"
  shows "\<not> ascii (urlencoded_field (urlencode s))"
proof -
  from assms(2) have "\<exists>b \<in> set (utf8_bytes s). 128 \<le> b" by (rule utf8_bytes_not_ascii)
  with decode_lossy_not_ascii [OF decoder_state_init, of "utf8_bytes s"]
  have "\<exists>c \<in> set (utf8_to_string (utf8_bytes s)). 128 \<le> c"
    by (simp add: utf8_to_string_def)
  then show ?thesis
    using assms(1) by (auto simp: field_urlencode ascii_def list_all_iff not_less)
qed

lemma field_urlencode_eq_ascii:
  assumes "code_units s" "ascii k"
  shows "urlencoded_field (urlencode s) = k \<longleftrightarrow> s = k"
  using assms field_urlencode_ascii field_urlencode_not_ascii by metis

subsection \<open>Parsing a serialised list\<close>

lemma hexDigit_chars: "hexDigit d \<noteq> 38 \<and> hexDigit d \<noteq> 61 \<and> hexDigit d \<noteq> 63 \<and> hexDigit d \<noteq> 43 \<and> hexDigit d \<noteq> 37"
  by (auto simp: hexDigit_def)

lemma hexDigit_ascii: "d < 16 \<Longrightarrow> hexDigit d < 128"
  by (simp add: hexDigit_def)

lemma urlencoded_byte_cases:
  "urlencoded_byte b = [43] \<and> b = 32 \<or>
   urlencoded_byte b = [b] \<and> b < 128 \<and> b \<notin> {37, 38, 43, 61, 63} \<or>
   urlencoded_byte b = pct b"
  unfolding urlencoded_byte_def by auto

lemma urlencoded_byte_chars: "c \<in> set (urlencoded_byte b) \<Longrightarrow> c \<noteq> 38 \<and> c \<noteq> 61 \<and> c \<noteq> 63"
  using urlencoded_byte_cases [of b] hexDigit_chars [of "b div 16"] hexDigit_chars [of "b mod 16"]
  by (auto simp: pct_def)

lemma urlencoded_byte_ascii:
  assumes "b < 256" "c \<in> set (urlencoded_byte b)"
  shows "c < 128"
proof -
  from assms(1) have "b div 16 < 16" "b mod 16 < 16" by simp_all
  then have "hexDigit (b div 16) < 128" "hexDigit (b mod 16) < 128" by (simp_all add: hexDigit_ascii)
  with assms(2) urlencoded_byte_cases [of b] show ?thesis
    by (auto simp: pct_def)
qed

lemma urlencode_chars:
  assumes "c \<in> set (urlencode s)"
  shows "c \<noteq> 38 \<and> c \<noteq> 61 \<and> c \<noteq> 63"
proof -
  from assms obtain b where "c \<in> set (urlencoded_byte b)" unfolding urlencode_def by auto
  then show ?thesis by (rule urlencoded_byte_chars)
qed

lemma urlencode_ascii:
  assumes "code_units s"
  shows "ascii (urlencode s)"
proof -
  have "c < 128" if "c \<in> set (urlencode s)" for c
  proof -
    from that obtain b where b: "b \<in> set (utf8_bytes s)" "c \<in> set (urlencoded_byte b)"
      unfolding urlencode_def by auto
    from assms b(1) have "b < 256" by (rule utf8_bytes_bytes)
    then show ?thesis using b(2) by (rule urlencoded_byte_ascii)
  qed
  then show ?thesis by (simp add: ascii_def list_all_iff)
qed

lemma split_on_none: "sep \<notin> set p \<Longrightarrow> split_on sep p = [p]"
  by (induction p) auto

lemma split_on_append: "sep \<notin> set p \<Longrightarrow> split_on sep (p @ sep # rest) = p # split_on sep rest"
  by (induction p) auto

lemma split_join:
  "ps \<noteq> [] \<Longrightarrow> \<forall>p \<in> set ps. sep \<notin> set p \<Longrightarrow> split_on sep (join [sep] ps) = ps"
  by (induction "[sep]" ps rule: join.induct) (simp_all add: split_on_none split_on_append)

lemma ascii_join: "\<forall>p \<in> set ps. ascii p \<Longrightarrow> ascii (join [38] ps)"
  by (induction "[38::nat]" ps rule: join.induct) (simp_all add: ascii_def)

lemma join_Cons: "join sep (p # ps) = p @ (if ps = [] then [] else sep @ join sep ps)"
  by (cases ps) simp_all

text \<open>The serialisation of one pair.\<close>

lemma pair_piece:
  fixes n v :: jsstring
  defines "piece \<equiv> urlencode n @ [61] @ urlencode v"
  shows "38 \<notin> set piece" and "piece \<noteq> []" and "hd piece \<noteq> 63"
    and "urlencoded_pair piece = (urlencoded_field (urlencode n), urlencoded_field (urlencode v))"
proof -
  show "38 \<notin> set piece" unfolding piece_def using urlencode_chars [of 38] by auto
  show "piece \<noteq> []" unfolding piece_def by simp
  show "hd piece \<noteq> 63"
  proof (cases "urlencode n")
    case Nil
    then show ?thesis by (simp add: piece_def)
  next
    case (Cons c cs)
    then have "c \<in> set (urlencode n)" by simp
    then have "c \<noteq> 63" using urlencode_chars by blast
    with Cons show ?thesis by (simp add: piece_def)
  qed
  have "\<forall>c \<in> set (urlencode n). c \<noteq> 61" using urlencode_chars by blast
  then have "takeWhile (\<lambda>b. b \<noteq> 61) piece = urlencode n"
    and "dropWhile (\<lambda>b. b \<noteq> 61) piece = 61 # urlencode v"
    unfolding piece_def by (simp_all add: takeWhile_append2 dropWhile_append2)
  then show "urlencoded_pair piece = (urlencoded_field (urlencode n), urlencoded_field (urlencode v))"
    by (simp add: urlencoded_pair_def)
qed

lemma parse_toString:
  assumes "\<forall>(n, v) \<in> set params. code_units n \<and> code_units v"
  shows "URLSearchParams (params_toString params) =
         map (\<lambda>(n, v). (urlencoded_field (urlencode n), urlencoded_field (urlencode v))) params"
proof (cases params)
  case Nil
  then show ?thesis
    by (simp add: URLSearchParams_def params_toString_def urlencoded_parse_def)
next
  case (Cons nv rest)
  define pieces where "pieces = map (\<lambda>(n, v). urlencode n @ [61] @ urlencode v) params"
  define s where "s = params_toString params"
  have s: "s = join [38] pieces" by (simp add: s_def pieces_def params_toString_def)
  have ne: "pieces \<noteq> []" using Cons by (simp add: pieces_def)
  have no_amp: "\<forall>p \<in> set pieces. 38 \<notin> set p"
    unfolding pieces_def using pair_piece(1) by auto
  have nonempty: "\<forall>p \<in> set pieces. p \<noteq> []"
    unfolding pieces_def using pair_piece(2) by auto
  have "ascii (urlencode n @ [61] @ urlencode v)" if "code_units n" "code_units v" for n v
    using urlencode_ascii [OF that(1)] urlencode_ascii [OF that(2)] by (simp add: ascii_def)
  with assms have "\<forall>p \<in> set pieces. ascii p"
    unfolding pieces_def by fastforce
  then have "ascii s" unfolding s by (rule ascii_join)
  then have bytes: "utf8_bytes s = s" by (rule utf8_bytes_ascii)
  obtain n v where nv: "nv = (n, v)" by (cases nv)
  define piece where "piece = urlencode n @ [61] @ urlencode v"
  have "\<exists>tail. s = piece @ tail"
    unfolding s pieces_def Cons nv piece_def by (simp add: join_Cons)
  moreover have "piece \<noteq> []" "hd piece \<noteq> 63"
    unfolding piece_def by (rule pair_piece(2), rule pair_piece(3))
  ultimately have "s \<noteq> []" "hd s \<noteq> 63" by auto
  then have strip: "(case s of c # cs \<Rightarrow> if c = 63 then cs else s | [] \<Rightarrow> s) = s"
    by (cases s) simp_all
  have "split_on 38 s = pieces" unfolding s using ne no_amp by (rule split_join)
  with nonempty have "filter (\<lambda>piece. piece \<noteq> []) (split_on 38 s) = pieces" by simp
  then have "URLSearchParams s = map urlencoded_pair pieces"
    by (simp add: URLSearchParams_def urlencoded_parse_def strip bytes)
  also have "\<dots> = map (\<lambda>(n, v). (urlencoded_field (urlencode n), urlencoded_field (urlencode v))) params"
    unfolding pieces_def using pair_piece(4) by (simp add: case_prod_beta)
  finally show ?thesis unfolding s_def .
qed

lemma get_parsed:
  assumes "\<forall>(n, v) \<in> set params. code_units n" "ascii k"
  shows "map_of (map (\<lambda>(n, v). (urlencoded_field (urlencode n), urlencoded_field (urlencode v))) params) k =
         map_option (\<lambda>v. urlencoded_field (urlencode v)) (map_of params k)"
  using assms(1)
proof (induction params)
  case Nil
  then show ?case by simp
next
  case (Cons nv params)
  obtain n v where nv: "nv = (n, v)" by (cases nv)
  with Cons.prems have "code_units n" by simp
  then have "urlencoded_field (urlencode n) = k \<longleftrightarrow> n = k"
    using assms(2) by (rule field_urlencode_eq_ascii)
  with Cons nv show ?case by auto
qed

lemma parsed_code_units: "\<forall>(n, v) \<in> set (URLSearchParams s). code_units n \<and> code_units v"
  by (simp add: URLSearchParams_def urlencoded_parse_def urlencoded_pair_def urlencoded_field_def
        utf8_to_string_code_units)

lemma map_of_filter_other:
  "k' \<noteq> k \<Longrightarrow> map_of (filter (\<lambda>(n', _). n' \<noteq> k) ps) k' = map_of ps k'"
  by (induction ps) auto

lemma get_set_same: "params_get (params_set ps k v) k = Some v"
  unfolding params_get_def by (induction ps k v rule: params_set.induct) simp_all

lemma get_set_other: "k' \<noteq> k \<Longrightarrow> params_get (params_set ps k v) k' = params_get ps k'"
  unfolding params_get_def
  by (induction ps k v rule: params_set.induct) (simp_all add: map_of_filter_other)

lemma get_delete_same: "params_get (params_delete ps k) k = None"
  unfolding params_get_def params_delete_def by (induction ps) auto

lemma get_delete_other: "k' \<noteq> k \<Longrightarrow> params_get (params_delete ps k) k' = params_get ps k'"
  unfolding params_get_def params_delete_def by (rule map_of_filter_other)

lemma set_code_units:
  assumes "\<forall>(n, v) \<in> set ps. code_units n \<and> code_units v" "code_units k" "code_units v"
  shows "\<forall>(n, v) \<in> set (params_set ps k v). code_units n \<and> code_units v"
  using assms by (induction ps k v rule: params_set.induct) auto

lemma delete_code_units:
  assumes "\<forall>(n, v) \<in> set ps. code_units n \<and> code_units v"
  shows "\<forall>(n, v) \<in> set (params_delete ps k). code_units n \<and> code_units v"
  using assms by (auto simp: params_delete_def)

subsection \<open>Numbers and keys\<close>

lemma digits_isDigit: "c \<in> set (digits n) \<Longrightarrow> isDigit c"
proof (induction n arbitrary: c rule: digits.induct)
  case (1 n)
  show ?case
  proof (cases "n < 10")
    case True
    with "1.prems" show ?thesis by (simp add: digits.simps [of n] isDigit_def)
  next
    case False
    have "n mod 10 < 10" by simp
    with "1.prems" False "1.IH" [OF False] show ?thesis
      by (auto simp: digits.simps [of n] isDigit_def)
  qed
qed

lemma digits_nonempty: "digits n \<noteq> []"
  by (simp add: digits.simps [of n])

lemma digits_value_digits: "digits_value (digits n) = n"
proof (induction n rule: digits.induct)
  case (1 n)
  show ?case
  proof (cases "n < 10")
    case True
    then show ?thesis by (simp add: digits.simps [of n] digits_value_def)
  next
    case False
    with "1.IH" have "foldl (\<lambda>a d. 10 * a + (d - 48)) 0 (digits (n div 10)) = n div 10"
      by (simp add: digits_value_def)
    with False show ?thesis by (simp add: digits.simps [of n] digits_value_def)
  qed
qed

lemma parseInt_digits: "parseInt (digits n) = Some (int n)"
proof -
  obtain c cs where d: "digits n = c # cs" using digits_nonempty [of n] by (cases "digits n") auto
  then have "isDigit c" using digits_isDigit [of c n] by simp
  then have c: "\<not> isWhiteSpace c" "c \<noteq> 45" "c \<noteq> 43"
    by (auto simp: isDigit_def isWhiteSpace_def)
  have all: "takeWhile isDigit (digits n) = digits n"
    using digits_isDigit by (simp add: takeWhile_eq_all_conv)
  have "parseInt (c # cs) = Some (int (digits_value (c # cs)))"
    using c all [unfolded d] by (simp add: parseInt_def)
  then show ?thesis by (simp add: d [symmetric] digits_value_digits)
qed

lemma ascii_digits: "ascii (digits n)"
  unfolding ascii_def list_all_iff using digits_isDigit by (fastforce simp: isDigit_def)

lemma toString_nonempty: "params \<noteq> [] \<Longrightarrow> params_toString params \<noteq> []"
proof (cases params)
  case Nil
  then show "params \<noteq> [] \<Longrightarrow> ?thesis" by simp
next
  case (Cons nv rest)
  then show ?thesis by (cases nv) (simp add: params_toString_def join_Cons)
qed

lemma set_nonempty: "params_set ps k v \<noteq> []"
  by (induction ps k v rule: params_set.induct) simp_all

lemma theme_ascii: "t \<in> set THEME_IDS \<Longrightarrow> ascii t \<and> t \<noteq> [] \<and> in_THEME_CONFIG t"
  by (auto simp: THEME_IDS_def in_THEME_CONFIG_def ascii_def js_def)

lemma key_facts:
  "ascii (js ''slide'')" "ascii (js ''theme'')" "ascii (js ''presenter'')" "ascii (js ''1'')"
  "js ''slide'' \<noteq> js ''theme''" "js ''slide'' \<noteq> js ''presenter''" "js ''theme'' \<noteq> js ''presenter''"
  by (simp_all add: ascii_def js_def)

lemma read_written:
  assumes "0 \<le> i" "t \<in> set THEME_IDS"
  shows "readHashState (writeHash location_hash i t p) =
         \<lparr>slideIndex = i, hashThemeId = t, presenter = p\<rparr>"
proof -
  define l0 where "l0 = URLSearchParams (strip_hash location_hash)"
  define l1 where "l1 = params_set l0 (js ''slide'') (String (i + 1))"
  define l2 where "l2 = params_set l1 (js ''theme'') t"
  define l3 where "l3 = (if p then params_set l2 (js ''presenter'') (js ''1'')
                         else params_delete l2 (js ''presenter''))"
  define F where "F = (\<lambda>v. urlencoded_field (urlencode v))"
  from assms(1) have num: "String (i + 1) = digits (nat (i + 1))" by (simp add: String_def)
  have a: "ascii (String (i + 1))" unfolding num by (rule ascii_digits)
  note th = theme_ascii [OF assms(2)]
  have cu0: "\<forall>(n, v) \<in> set l0. code_units n \<and> code_units v"
    unfolding l0_def by (rule parsed_code_units)
  have cu1: "\<forall>(n, v) \<in> set l1. code_units n \<and> code_units v"
    unfolding l1_def using cu0 key_facts(1) a by (intro set_code_units ascii_code_units)
  have cu2: "\<forall>(n, v) \<in> set l2. code_units n \<and> code_units v"
    unfolding l2_def using cu1 key_facts(2) th by (intro set_code_units ascii_code_units) simp_all
  have cu3: "\<forall>(n, v) \<in> set l3. code_units n \<and> code_units v"
  proof (cases p)
    case True
    have "\<forall>(n, v) \<in> set (params_set l2 (js ''presenter'') (js ''1'')). code_units n \<and> code_units v"
      using cu2 key_facts(3,4) by (intro set_code_units ascii_code_units)
    with True show ?thesis by (simp add: l3_def)
  next
    case False
    have "\<forall>(n, v) \<in> set (params_delete l2 (js ''presenter'')). code_units n \<and> code_units v"
      using cu2 by (rule delete_code_units)
    with False show ?thesis by (simp add: l3_def)
  qed
  have ne: "l3 \<noteq> []"
  proof
    assume "l3 = []"
    then have "params_get l3 (js ''theme'') = None" by (simp add: params_get_def)
    moreover have "params_get l3 (js ''theme'') = Some t"
      unfolding l3_def l2_def using key_facts(7)
      by (simp add: get_set_same get_set_other get_delete_other)
    ultimately show False by simp
  qed
  have w: "writeHash location_hash i t p = 35 # params_toString l3"
    using toString_nonempty [OF ne]
    by (cases p) (simp_all add: writeHash_def Let_def l3_def l2_def l1_def l0_def)
  have parsed: "URLSearchParams (params_toString l3) = map (\<lambda>(n, v). (F n, F v)) l3"
    unfolding F_def using cu3 by (rule parse_toString)
  have get: "params_get (URLSearchParams (params_toString l3)) k = map_option F (params_get l3 k)"
    if "ascii k" for k
  proof -
    from cu3 have "\<forall>(n, v) \<in> set l3. code_units n" by auto
    then show ?thesis
      unfolding parsed params_get_def F_def using that by (rule get_parsed)
  qed
  have slide: "params_get l3 (js ''slide'') = Some (String (i + 1))"
    unfolding l3_def l2_def l1_def using key_facts(5,6)
    by (simp add: get_set_same get_set_other get_delete_other)
  have theme: "params_get l3 (js ''theme'') = Some t"
    unfolding l3_def l2_def using key_facts(7)
    by (simp add: get_set_same get_set_other get_delete_other)
  have pres: "params_get l3 (js ''presenter'') = (if p then Some (js ''1'') else None)"
    unfolding l3_def by (simp add: get_set_same get_delete_same)
  have F: "F (String (i + 1)) = String (i + 1)" "F t = t" "F (js ''1'') = js ''1''"
    unfolding F_def using a th key_facts(4) by (simp_all add: field_urlencode_ascii)
  have g: "params_get (URLSearchParams (params_toString l3)) (js ''slide'') = Some (String (i + 1))"
    "params_get (URLSearchParams (params_toString l3)) (js ''theme'') = Some t"
    "params_get (URLSearchParams (params_toString l3)) (js ''presenter'') =
       (if p then Some (js ''1'') else None)"
    using key_facts(1,2,3) by (simp_all add: get slide theme pres F)
  from assms(1) have n: "parseInt (String (i + 1)) = Some (i + 1)"
    unfolding num parseInt_digits by simp
  show ?thesis
    unfolding w readHashState_def using th assms(1)
    by (simp add: strip_hash_def g n)
qed

subsection \<open>The fragment of the specification\<close>

lemma field_ascii: "ascii bs \<Longrightarrow> 43 \<notin> set bs \<Longrightarrow> 37 \<notin> set bs \<Longrightarrow> urlencoded_field bs = bs"
proof -
  assume a: "ascii bs" and plus: "43 \<notin> set bs" and p: "37 \<notin> set bs"
  from plus have m: "map (\<lambda>b. if b = 43 then 32 else b) bs = bs" by (induction bs) auto
  from p have "percent_decode bs = bs"
    by (induction bs) (simp_all add: percent_decode_plain)
  moreover from a have "utf8_to_string bs = bs"
    unfolding utf8_to_string_def by (intro decode_lossy_ascii) (simp add: ascii_def list_all_iff)
  ultimately show ?thesis by (simp add: urlencoded_field_def m)
qed

lemma parse_example:
  "URLSearchParams (js ''slide=2&theme=hacker&presenter=1'') =
     [(js ''slide'', js ''2''), (js ''theme'', js ''hacker''), (js ''presenter'', js ''1'')]"
proof -
  have a: "ascii (js ''slide=2&theme=hacker&presenter=1'')" by (simp add: ascii_def js_def)
  have s: "split_on 38 (js ''slide=2&theme=hacker&presenter=1'') =
       [js ''slide=2'', js ''theme=hacker'', js ''presenter=1'']"
    by (simp add: js_def)
  have f: "urlencoded_field (js ''slide'') = js ''slide''" "urlencoded_field (js ''2'') = js ''2''"
    "urlencoded_field (js ''theme'') = js ''theme''" "urlencoded_field (js ''hacker'') = js ''hacker''"
    "urlencoded_field (js ''presenter'') = js ''presenter''" "urlencoded_field (js ''1'') = js ''1''"
    by (rule field_ascii; simp add: ascii_def js_def)+
  have q: "urlencoded_pair (js ''slide=2'') = (js ''slide'', js ''2'')"
    "urlencoded_pair (js ''theme=hacker'') = (js ''theme'', js ''hacker'')"
    "urlencoded_pair (js ''presenter=1'') = (js ''presenter'', js ''1'')"
    using f by (simp_all add: urlencoded_pair_def js_def)
  have "js ''slide=2&theme=hacker&presenter=1'' \<noteq> [] \<and> hd (js ''slide=2&theme=hacker&presenter=1'') \<noteq> 63"
    by (simp add: js_def)
  then have strip: "(case js ''slide=2&theme=hacker&presenter=1'' of c # cs \<Rightarrow>
       if c = 63 then cs else js ''slide=2&theme=hacker&presenter=1'' | [] \<Rightarrow> js ''slide=2&theme=hacker&presenter=1'') =
       js ''slide=2&theme=hacker&presenter=1''"
    by (cases "js ''slide=2&theme=hacker&presenter=1''") simp_all
  have ne: "js ''slide=2'' \<noteq> []" "js ''theme=hacker'' \<noteq> []" "js ''presenter=1'' \<noteq> []"
    by (simp_all add: js_def)
  show ?thesis
    unfolding URLSearchParams_def strip utf8_bytes_ascii [OF a] urlencoded_parse_def s
    by (simp add: ne q)
qed


lemma read_example:
  "readHashState (js ''#slide=2&theme=hacker&presenter=1'') =
     \<lparr>slideIndex = 1, hashThemeId = js ''hacker'', presenter = True\<rparr>"
  "readHashState (js ''slide=2&theme=hacker&presenter=1'') =
     \<lparr>slideIndex = 1, hashThemeId = js ''hacker'', presenter = True\<rparr>"
proof -
  have n: "parseInt (js ''2'') = Some 2"
    by (simp add: parseInt_def js_def isWhiteSpace_def isDigit_def digits_value_def)
  have t: "in_THEME_CONFIG (js ''hacker'')" by (simp add: in_THEME_CONFIG_def THEME_IDS_def)
  have s: "strip_hash (js ''#slide=2&theme=hacker&presenter=1'') = js ''slide=2&theme=hacker&presenter=1''"
    "strip_hash (js ''slide=2&theme=hacker&presenter=1'') = js ''slide=2&theme=hacker&presenter=1''"
    by (simp_all add: strip_hash_def js_def)
  have k: "js ''theme'' \<noteq> js ''slide''" "js ''presenter'' \<noteq> js ''slide''"
     "js ''presenter'' \<noteq> js ''theme''" "js ''hacker'' \<noteq> []"
    by (simp_all add: js_def)
  show "readHashState (js ''#slide=2&theme=hacker&presenter=1'') =
     \<lparr>slideIndex = 1, hashThemeId = js ''hacker'', presenter = True\<rparr>"
    unfolding readHashState_def s parse_example by (simp add: params_get_def n t k)
  show "readHashState (js ''slide=2&theme=hacker&presenter=1'') =
     \<lparr>slideIndex = 1, hashThemeId = js ''hacker'', presenter = True\<rparr>"
    unfolding readHashState_def s parse_example by (simp add: params_get_def n t k)
qed

lemma urlencode_example:
  "urlencode (js ''slide'') = js ''slide''" "urlencode (js ''2'') = js ''2''"
  "urlencode (js ''theme'') = js ''theme''" "urlencode (js ''hacker'') = js ''hacker''"
  "urlencode (js ''presenter'') = js ''presenter''" "urlencode (js ''1'') = js ''1''"
proof -
  have a: "ascii (js ''slide'')" "ascii (js ''2'')" "ascii (js ''theme'')" "ascii (js ''hacker'')"
    "ascii (js ''presenter'')" "ascii (js ''1'')"
    by (simp_all add: ascii_def js_def)
  show "urlencode (js ''slide'') = js ''slide''" "urlencode (js ''2'') = js ''2''"
    "urlencode (js ''theme'') = js ''theme''" "urlencode (js ''hacker'') = js ''hacker''"
    "urlencode (js ''presenter'') = js ''presenter''" "urlencode (js ''1'') = js ''1''"
    unfolding urlencode_def utf8_bytes_ascii [OF a(1)] utf8_bytes_ascii [OF a(2)]
      utf8_bytes_ascii [OF a(3)] utf8_bytes_ascii [OF a(4)] utf8_bytes_ascii [OF a(5)]
      utf8_bytes_ascii [OF a(6)]
    by (simp_all add: js_def urlencoded_byte_def)
qed

lemma write_example:
  "writeHash [] 1 (js ''hacker'') True = js ''#slide=2&theme=hacker&presenter=1''"
proof -
  have p: "URLSearchParams (strip_hash []) = []"
    by (simp add: strip_hash_def URLSearchParams_def urlencoded_parse_def)
  have n: "String (1 + 1) = js ''2''" by (simp add: String_def digits.simps js_def)
  have k: "js ''slide'' \<noteq> js ''theme''" "js ''slide'' \<noteq> js ''presenter''"
     "js ''theme'' \<noteq> js ''presenter''"
    by (simp_all add: js_def)
  have "params_toString [(js ''slide'', js ''2''), (js ''theme'', js ''hacker''), (js ''presenter'', js ''1'')] =
        js ''slide=2&theme=hacker&presenter=1''"
    unfolding params_toString_def by (simp add: urlencode_example) (simp add: js_def)
  then show ?thesis
    unfolding writeHash_def p n Let_def by (simp add: k) (simp add: js_def)
qed

text \<open>
  Claim C2. For every state whose slide index is a non-negative integer (in the range
  where JavaScript numbers are exact, so that the \<open>int\<close> of the model is the number of
  the program) and whose theme is one of the five themes, reading the fragment that the
  hash-writing effect writes for this state gives the state back, whatever fragment the
  location held before. Reading \<^verbatim>\<open>slide=2&theme=hacker&presenter=1\<close>, with or without
  its \<^verbatim>\<open>#\<close>, gives slide index \<open>1\<close>, theme \<^verbatim>\<open>hacker\<close> and presenter mode.
\<close>

theorem reading_the_written_fragment_gives_the_state:
  "(0 \<le> slideIndex st \<and> slideIndex st < 9007199254740991 \<and> hashThemeId st \<in> set THEME_IDS \<longrightarrow>
      readHashState (writeHash location_hash (slideIndex st) (hashThemeId st) (presenter st)) = st) \<and>
   readHashState (js ''#slide=2&theme=hacker&presenter=1'') =
     \<lparr>slideIndex = 1, hashThemeId = js ''hacker'', presenter = True\<rparr> \<and>
   readHashState (js ''slide=2&theme=hacker&presenter=1'') =
     \<lparr>slideIndex = 1, hashThemeId = js ''hacker'', presenter = True\<rparr>"
proof -
  have "readHashState (writeHash location_hash (slideIndex st) (hashThemeId st) (presenter st)) = st"
    if "0 \<le> slideIndex st" "hashThemeId st \<in> set THEME_IDS"
    using read_written [OF that, of location_hash "presenter st"] by simp
  with read_example show ?thesis by blast
qed

text \<open>
  The state of the specification, written over a fragment that holds another slide, a
  parameter of somebody else and an escaped name, and read back.
\<close>

theorem reading_the_written_fragment_gives_the_state_witness:
  "js ''hacker'' \<in> set THEME_IDS \<and>
   readHashState (writeHash (js ''#zoom=2&slide=7&%C3%A9=+&presenter=0'') 1 (js ''hacker'') True) =
     \<lparr>slideIndex = 1, hashThemeId = js ''hacker'', presenter = True\<rparr>"
  using reading_the_written_fragment_gives_the_state
    [where st = "\<lparr>slideIndex = 1, hashThemeId = js ''hacker'', presenter = True\<rparr>"
       and location_hash = "js ''#zoom=2&slide=7&%C3%A9=+&presenter=0''"]
  by (simp add: THEME_IDS_def)

end
